theory Spec2Isabelle
  imports Main "HOL-Library.Word" "HOL-Library.Multiset"
begin

section \<open>ESPAsyncWiFiManager: a shallow embedding\<close>

text \<open>
  The model follows \<^verbatim>\<open>src/ESPAsyncWiFiManager.cpp\<close> and its header as built for the
  ESP32 (the file includes \<^verbatim>\<open>esp_task_wdt.h\<close> and the NVS wrapper, so the
  \<^verbatim>\<open>#else\<close> branches of the \<^verbatim>\<open>ESP8266\<close> conditionals are the ones modelled, without
  \<^verbatim>\<open>USE_EADNS\<close> and without \<^verbatim>\<open>NO_EXTRA_4K_HEAP\<close>).

  \<^item> \<^verbatim>\<open>unsigned long\<close> and \<^verbatim>\<open>unsigned int\<close> are 32 bits wide on the target. Values
    of \<^verbatim>\<open>millis()\<close> and the fields compared with them are \<open>32 word\<close>, so that
    subtraction and addition wrap as in the code.
  \<^item> \<^verbatim>\<open>int32_t RSSI\<close> is an \<open>int\<close>: the code only compares RSSI values and
    computes \<^verbatim>\<open>2 * (RSSI + 100)\<close> for \<^verbatim>\<open>-100 < RSSI < -50\<close>, where nothing overflows.
  \<^item> An Arduino \<^verbatim>\<open>String\<close> and a \<^verbatim>\<open>const char *\<close> are a \<open>string\<close>; a pointer that
    may be \<^verbatim>\<open>NULL\<close> is an \<open>option\<close>.
  \<^item> Calls into the radio driver, the web server, the DNS server and the user's
    callbacks are recorded, in order, in a trace of \<open>effect\<close>s; what those calls
    return is read from an environment record given to the function.
  \<^item> The blocking portal (\<^verbatim>\<open>startConfigPortal\<close>) is modelled with everything it calls;
    the non-blocking variant (\<^verbatim>\<open>startConfigPortalModeless\<close>, \<^verbatim>\<open>criticalLoop\<close>), the
    station-side handlers and the text of the pages are not.
\<close>

subsection \<open>Signal quality and the IP-literal test\<close>

text \<open>\<^verbatim>\<open>unsigned int getRSSIasQuality(int RSSI)\<close>.\<close>

definition getRSSIasQuality :: "int \<Rightarrow> nat" where
  "getRSSIasQuality RSSI =
     (if RSSI \<le> - 100 then 0
      else if RSSI \<ge> - 50 then 100
      else nat (2 * (RSSI + 100)))"

text \<open>
  \<^verbatim>\<open>boolean isIp(String str)\<close>: the loop over the characters, returning \<open>False\<close> at
  the first character that is neither \<^verbatim>\<open>'.'\<close> nor a decimal digit.
\<close>

fun isIp :: "string \<Rightarrow> bool" where
  "isIp [] = True"
| "isIp (c # cs) =
     (if c \<noteq> CHR ''.'' \<and> (of_char c < (of_char CHR ''0'' :: nat) \<or> of_char c > (of_char CHR ''9'' :: nat))
      then False else isIp cs)"

subsection \<open>Strings of the Arduino core\<close>

text \<open>
  The Arduino core's \<^verbatim>\<open>String\<close> class and the C library are not part of this
  repository. The operations of them that the modelled code uses are written out here
  as the libraries document them.

  \<^verbatim>\<open>String::replace(find, replace)\<close> replaces every occurrence of \<open>find\<close>, scanning
  from the left, and does nothing for an empty \<open>find\<close>. (The placeholders the code
  searches for, \<^verbatim>\<open>{v}\<close>, \<^verbatim>\<open>{r}\<close> and \<^verbatim>\<open>{i}\<close>, cannot overlap themselves, so the scanning
  direction makes no difference.)
\<close>

function replace :: "string \<Rightarrow> string \<Rightarrow> string \<Rightarrow> string" where
  "replace pat repl s =
     (if pat = [] \<or> s = [] then s
      else if take (length pat) s = pat
           then repl @ replace pat repl (drop (length pat) s)
           else hd s # replace pat repl (tl s))"
  by pat_completeness auto
termination
  by (relation "measure (\<lambda>(pat, repl, s). length s)") (auto simp: neq_Nil_conv)

text \<open>Appending an \<^verbatim>\<open>unsigned int\<close> to a \<^verbatim>\<open>String\<close> appends its decimal digits.\<close>

function decimal :: "nat \<Rightarrow> string" where
  "decimal n =
     (if n < 10 then [char_of (48 + n)]
      else decimal (n div 10) @ [char_of (48 + n mod 10)])"
  by pat_completeness auto
termination
  by (relation "measure id") auto

text \<open>
  \<^verbatim>\<open>String::toCharArray(buf, bufsize)\<close> (with index 0) is \<^verbatim>\<open>getBytes\<close>: it returns at once
  when \<open>bufsize\<close> is 0 or \<open>buf\<close> is \<^verbatim>\<open>NULL\<close>; otherwise it copies
  \<open>n = min (bufsize - 1) len\<close> characters to the front of the buffer and writes a
  terminating NUL at index \<open>n\<close>. The rest of the buffer keeps its content. The buffer is
  the list of the bytes of the array it points to.
\<close>

definition toCharArray :: "string \<Rightarrow> char list option \<Rightarrow> nat \<Rightarrow> char list option" where
  "toCharArray s buf bufsize =
     (case buf of
        None \<Rightarrow> None
      | Some b \<Rightarrow>
          if bufsize = 0 then Some b
          else (let n = min (bufsize - 1) (length s)
                in Some (take n s @ [CHR 0x00] @ drop (n + 1) b)))"

text \<open>
  A \<^verbatim>\<open>String\<close> built from a \<^verbatim>\<open>const char *\<close> (as in
  \<^verbatim>\<open>String value = request->arg(...).c_str()\<close>) holds the characters before the first NUL.
\<close>

definition c_str :: "char list \<Rightarrow> string" where
  "c_str b = takeWhile (\<lambda>c. c \<noteq> CHR 0x00) b"

text \<open>
  \<^verbatim>\<open>strncpy(dst, src, n)\<close> of the C library: the first \<open>n\<close> bytes of \<open>dst\<close> become the
  characters of \<open>src\<close>, padded with NUL when \<open>src\<close> is shorter than \<open>n\<close>; no
  terminator is written when \<open>src\<close> has \<open>n\<close> characters or more.
\<close>

definition strncpy :: "char list \<Rightarrow> string \<Rightarrow> nat \<Rightarrow> char list" where
  "strncpy dst src n =
     take n (c_str src) @ replicate (n - length (c_str src)) (CHR 0x00) @ drop n dst"

subsection \<open>Scan results\<close>

text \<open>\<^verbatim>\<open>class WiFiResult\<close> of the header.\<close>

record WiFiResult =
  duplicate :: bool
  SSID :: string
  encryptionType :: "8 word"
  RSSI :: int
  BSSID :: "8 word list"
  channel :: int
  isHidden :: bool

definition WIFI_AUTH_OPEN :: "8 word" where
  "WIFI_AUTH_OPEN = 0"

text \<open>
  The sentinels of the ESP32 Arduino core (\<^verbatim>\<open>WiFiType.h\<close>): \<^verbatim>\<open>WIFI_SCAN_RUNNING\<close> is
  \<open>-1\<close> and \<^verbatim>\<open>WIFI_SCAN_FAILED\<close> is \<open>-2\<close>.
\<close>

definition WIFI_SCAN_RUNNING :: int where
  "WIFI_SCAN_RUNNING = - 1"

definition WIFI_SCAN_FAILED :: int where
  "WIFI_SCAN_FAILED = - 2"

text \<open>\<^verbatim>\<open>HTTP_ITEM\<close> of the header, a raw literal that starts and ends with a newline.\<close>

definition HTTP_ITEM :: string where
  "HTTP_ITEM =
     [CHR 0x0A] @ ''<div>'' @ [CHR 0x0A]
     @ ''  <a href='#p' onclick='c(this)'>{v}</a>&nbsp;'' @ [CHR 0x0A]
     @ ''  <span class='q {i}'>{r}%</span>'' @ [CHR 0x0A]
     @ ''</div>'' @ [CHR 0x0A]"

text \<open>
  The RSSI sort of \<^verbatim>\<open>copySSIDInfo\<close>: for every \<open>i\<close>, every later \<open>j\<close> whose RSSI is
  greater than the one at \<open>i\<close> is swapped with \<open>i\<close>. \<open>n\<close> is the number of elements of
  the array.
\<close>

function sort_inner :: "nat \<Rightarrow> nat \<Rightarrow> nat \<Rightarrow> WiFiResult list \<Rightarrow> WiFiResult list" where
  "sort_inner n i j a =
     (if j < n
      then sort_inner n i (Suc j)
             (if RSSI (a ! j) > RSSI (a ! i) then a[i := a ! j, j := a ! i] else a)
      else a)"
  by pat_completeness auto
termination
  by (relation "measure (\<lambda>(n, i, j, a). n - j)") auto

function sort_outer :: "nat \<Rightarrow> nat \<Rightarrow> WiFiResult list \<Rightarrow> WiFiResult list" where
  "sort_outer n i a =
     (if i < n then sort_outer n (Suc i) (sort_inner n i (Suc i) a) else a)"
  by pat_completeness auto
termination
  by (relation "measure (\<lambda>(n, i, a). n - i)") auto

text \<open>
  The duplicate marking of \<^verbatim>\<open>copySSIDInfo\<close>: an entry already marked is skipped;
  otherwise every later entry with the same SSID is marked.
\<close>

function dedup_inner :: "nat \<Rightarrow> string \<Rightarrow> nat \<Rightarrow> WiFiResult list \<Rightarrow> WiFiResult list" where
  "dedup_inner n cssid j a =
     (if j < n
      then dedup_inner n cssid (Suc j)
             (if cssid = SSID (a ! j) then a[j := (a ! j)\<lparr>duplicate := True\<rparr>] else a)
      else a)"
  by pat_completeness auto
termination
  by (relation "measure (\<lambda>(n, cssid, j, a). n - j)") auto

function dedup_outer :: "nat \<Rightarrow> nat \<Rightarrow> WiFiResult list \<Rightarrow> WiFiResult list" where
  "dedup_outer n i a =
     (if i < n
      then (if duplicate (a ! i) then dedup_outer n (Suc i) a
            else dedup_outer n (Suc i) (dedup_inner n (SSID (a ! i)) (Suc i) a))
      else a)"
  by pat_completeness auto
termination
  by (relation "measure (\<lambda>(n, i, a). n - i)") auto

subsection \<open>Parameters, requests, effects\<close>

text \<open>
  \<^verbatim>\<open>class AsyncWiFiManagerParameter\<close>. \<open>p_value\<close> is the array \<^verbatim>\<open>_value\<close> points to
  (all \<open>length + 1\<close> bytes of it), or \<open>None\<close> for \<^verbatim>\<open>NULL\<close>. The declared length is
  a \<open>nat\<close>: \<open>length + 1\<close> is taken not to wrap.
\<close>

record AsyncWiFiManagerParameter =
  p_id :: "string option"
  p_placeholder :: "string option"
  p_value :: "char list option"
  p_length :: nat
  p_customHTML :: "string option"

text \<open>The constructor that takes only custom HTML.\<close>

definition AsyncWiFiManagerParameter_custom :: "string option \<Rightarrow> AsyncWiFiManagerParameter" where
  "AsyncWiFiManagerParameter_custom custom =
     \<lparr>p_id = None, p_placeholder = None, p_value = None, p_length = 0, p_customHTML = custom\<rparr>"

text \<open>
  \<^verbatim>\<open>AsyncWiFiManagerParameter::init\<close>. \<open>fresh\<close> is the indeterminate content of the
  array that \<^verbatim>\<open>new char[length + 1]\<close> returns; the loop zeroes its first \<open>length\<close>
  bytes and \<^verbatim>\<open>strncpy\<close> writes at most \<open>length\<close> bytes, so the last byte keeps the
  content it was allocated with.
\<close>

definition AsyncWiFiManagerParameter_init ::
  "(nat \<Rightarrow> char) \<Rightarrow> string option \<Rightarrow> string option \<Rightarrow> string option \<Rightarrow> nat \<Rightarrow> string option
     \<Rightarrow> AsyncWiFiManagerParameter" where
  "AsyncWiFiManagerParameter_init fresh ident placeholder defaultValue len custom =
     (let buf0 = map fresh [0..<len + 1];
          buf1 = replicate len (CHR 0x00) @ drop len buf0;
          buf2 = (case defaultValue of None \<Rightarrow> buf1 | Some d \<Rightarrow> strncpy buf1 d len)
      in \<lparr>p_id = ident, p_placeholder = placeholder, p_value = Some buf2, p_length = len,
          p_customHTML = custom\<rparr>)"

definition getValue :: "AsyncWiFiManagerParameter \<Rightarrow> string option" where
  "getValue p = map_option c_str (p_value p)"

text \<open>
  What the code reads of an \<^verbatim>\<open>AsyncWebServerRequest\<close>: the \<^verbatim>\<open>Host\<close> header, the
  arguments in the order they were sent, and the local address of the connection.
  \<^verbatim>\<open>request->arg(name)\<close> is the value of the first argument of that name, or the empty
  string.
\<close>

record request =
  host :: string
  args :: "(string \<times> string) list"
  localIP :: "32 word"

definition hasArg :: "request \<Rightarrow> string \<Rightarrow> bool" where
  "hasArg req name = (map_of (args req) name \<noteq> None)"

definition arg :: "request \<Rightarrow> string \<Rightarrow> string" where
  "arg req name = (case map_of (args req) name of None \<Rightarrow> [] | Some v \<Rightarrow> v)"

text \<open>\<^verbatim>\<open>wl_status_t\<close> of the Arduino core.\<close>

datatype wl_status =
    WL_NO_SHIELD | WL_IDLE_STATUS | WL_NO_SSID_AVAIL | WL_SCAN_COMPLETED | WL_CONNECTED
  | WL_CONNECT_FAILED | WL_CONNECTION_LOST | WL_DISCONNECTED

text \<open>
  The calls the code makes on its collaborators. \<open>HttpSend\<close> carries the status, the
  content type and the headers added to the response; page bodies are not modelled.
  Debug printing is left out.
\<close>

datatype effect =
    ApCallback
  | SaveCallback
  | ServerReset
  | ServerOn string
  | ServerOnNotFound
  | ServerBegin
  | HttpSend nat string "(string \<times> string) list"
  | SoftAPConfig "32 word" "32 word" "32 word"
  | SoftAP string "string option"
  | DnsStart
  | DnsProcessNextRequest
  | DnsStop
  | WiFiModeAP
  | WiFiDisconnect bool
  | WiFiScanNetworks bool
  | WiFiBegin
  | WiFiBeginWith string string
  | WiFiConfig "32 word" "32 word" "32 word" "32 word" "32 word"
  | WiFiPersistent bool
  | WdtReset
  | Delay nat
  | Yield

subsection \<open>The manager\<close>

text \<open>
  The members of \<^verbatim>\<open>class AsyncWiFiManager\<close> that the modelled functions use, named as
  in the header without the leading underscore. Three more pieces of program state are
  kept in the same record: the function-local \<^verbatim>\<open>static bool try_scan\<close> of \<^verbatim>\<open>scan\<close>, the
  file-level statics \<^verbatim>\<open>_saveAttempted\<close> and \<^verbatim>\<open>save_attempted\<close>, and the two NVS entries
  the code reads and writes. \<open>trace\<close> is the list of effects so far, oldest first.

  \<open>params i\<close> is the pointer stored in \<^verbatim>\<open>_params[i]\<close>, with the parameter it points to
  held by value. The array is declared with \<open>WIFI_MANAGER_MAX_PARAMS\<close> elements, and
  \<^verbatim>\<open>addParameter\<close> indexes it with no check, so an index from
  \<open>WIFI_MANAGER_MAX_PARAMS\<close> on stands for the memory behind the array.
  \<open>savecallback\<close> and \<open>apcallback\<close> say whether a callback is registered.
\<close>

record manager =
  scannow :: "32 word"
  shouldscan :: bool
  needInfo :: bool
  time_now :: "32 word"
  foundOnScan :: bool
  ap_on :: bool
  border :: "32 word"
  wifiStatus :: wl_status
  apName :: string
  apPassword :: "string option"
  ssid :: string
  pass :: string
  configPortalTimeout :: "32 word"
  connectTimeout :: "32 word"
  configPortalStart :: "32 word"
  ap_static_ip :: "32 word"
  ap_static_gw :: "32 word"
  ap_static_sn :: "32 word"
  sta_static_ip :: "32 word"
  sta_static_gw :: "32 word"
  sta_static_sn :: "32 word"
  sta_static_dns1 :: "32 word"
  sta_static_dns2 :: "32 word"
  paramsCount :: nat
  minimumQuality :: nat
  removeDuplicateAPs :: bool
  shouldBreakAfterConfig :: bool
  connect :: bool
  wifiSSIDs :: "WiFiResult list option"
  wifiSSIDCount :: int
  wifiSSIDscan :: bool
  tryConnectDuringConfigPortal :: bool
  apcallback :: bool
  savecallback :: bool
  params :: "nat \<Rightarrow> AsyncWiFiManagerParameter option"
  try_scan :: bool
  saveAttempted :: bool
  save_attempted :: int
  nvs_network :: string
  nvs_stand_alone :: int
  trace :: "effect list"

definition WIFI_MANAGER_MAX_PARAMS :: nat where
  "WIFI_MANAGER_MAX_PARAMS = 10"

definition emit :: "effect \<Rightarrow> manager \<Rightarrow> manager" where
  "emit e st = st\<lparr>trace := trace st @ [e]\<rparr>"

text \<open>
  The constructor and the default member initialisers of the header, applied to the
  indeterminate content \<open>raw\<close> of the object's memory: the members the code does not
  initialise (\<^verbatim>\<open>scannow\<close>, \<^verbatim>\<open>time_now\<close>, \<^verbatim>\<open>connect\<close>, \<^verbatim>\<open>wifiSSIDCount\<close>, \<^verbatim>\<open>wifiStatus\<close>,
  \<^verbatim>\<open>_params\<close>) keep it. An \<^verbatim>\<open>IPAddress\<close> member is constructed as 0.0.0.0 and a
  \<^verbatim>\<open>std::function\<close> member as empty.
\<close>

definition AsyncWiFiManager_ctor :: "manager \<Rightarrow> manager" where
  "AsyncWiFiManager_ctor raw =
     raw\<lparr>shouldscan := True, needInfo := True, foundOnScan := False, ap_on := False,
         border := 40000, apName := ''no-net'', apPassword := None, ssid := [], pass := [],
         configPortalTimeout := 0, connectTimeout := 0, configPortalStart := 0,
         ap_static_ip := 0, ap_static_gw := 0, ap_static_sn := 0, sta_static_ip := 0,
         sta_static_gw := 0, sta_static_sn := 0,
         sta_static_dns1 := 0, sta_static_dns2 := 0, paramsCount := 0, minimumQuality := 0,
         removeDuplicateAPs := True, shouldBreakAfterConfig := False,
         tryConnectDuringConfigPortal := True, apcallback := False, savecallback := False,
         wifiSSIDs := None, wifiSSIDscan := True\<rparr>"

text \<open>\<^verbatim>\<open>addParameter\<close>: the store and the increment, as written.\<close>

definition addParameter :: "AsyncWiFiManagerParameter \<Rightarrow> manager \<Rightarrow> manager" where
  "addParameter p st =
     st\<lparr>params := (params st)(paramsCount st \<mapsto> p), paramsCount := paramsCount st + 1\<rparr>"

text \<open>The setters.\<close>

definition setConfigPortalTimeout :: "32 word \<Rightarrow> manager \<Rightarrow> manager" where
  "setConfigPortalTimeout seconds st = st\<lparr>configPortalTimeout := seconds * 1000\<rparr>"

definition setConnectTimeout :: "32 word \<Rightarrow> manager \<Rightarrow> manager" where
  "setConnectTimeout seconds st = st\<lparr>connectTimeout := seconds * 1000\<rparr>"

definition setTryConnectDuringConfigPortal :: "bool \<Rightarrow> manager \<Rightarrow> manager" where
  "setTryConnectDuringConfigPortal v st = st\<lparr>tryConnectDuringConfigPortal := v\<rparr>"

definition setMinimumSignalQuality :: "nat \<Rightarrow> manager \<Rightarrow> manager" where
  "setMinimumSignalQuality quality st = st\<lparr>minimumQuality := quality\<rparr>"

definition setBreakAfterConfig :: "bool \<Rightarrow> manager \<Rightarrow> manager" where
  "setBreakAfterConfig shouldBreak st = st\<lparr>shouldBreakAfterConfig := shouldBreak\<rparr>"

definition setRemoveDuplicateAPs :: "bool \<Rightarrow> manager \<Rightarrow> manager" where
  "setRemoveDuplicateAPs removeDuplicates st = st\<lparr>removeDuplicateAPs := removeDuplicates\<rparr>"

definition setSaveConfigCallback :: "manager \<Rightarrow> manager" where
  "setSaveConfigCallback st = st\<lparr>savecallback := True\<rparr>"

subsection \<open>The scan cache\<close>

text \<open>
  What one pass through the body of the portal loop reads from outside the manager, named
  by the place of the read. \<open>polls\<close> are the successive readings
  (\<^verbatim>\<open>WiFi.status()\<close>, \<^verbatim>\<open>millis()\<close>) of the polling loop in \<^verbatim>\<open>waitForConnectResult\<close>.
  \<open>requests\<close> are the save-form submissions (with the value of \<^verbatim>\<open>millis()\<close> in the handler) that the web
  server's handler processed since the previous pass: the handler runs asynchronously,
  and the model lets it run between two passes.
\<close>

record environment =
  requests :: "(32 word \<times> request) list"
  t_loop :: "32 word"
  t_ap1 :: "32 word"
  t_ap2 :: "32 word"
  t_scandue :: "32 word"
  scanNetworks_result :: int
  getNetworkInfo :: "nat \<Rightarrow> WiFiResult"
  t_copy :: "32 word"
  t_scanstamp :: "32 word"
  loop_status :: wl_status
  sta_ssid_stored :: bool
  lib_waitForConnectResult :: wl_status
  t_wait_start :: "32 word"
  polls :: "(wl_status \<times> 32 word) list"
  info_status :: wl_status
  t_fail :: "32 word"

text \<open>
  \<^verbatim>\<open>copySSIDInfo(n)\<close>. The chain of tests at its head only prints. For \<open>n > 0\<close> a new
  array of \<open>n\<close> results is filled from the driver, entry \<open>i\<close> from
  \<^verbatim>\<open>WiFi.getNetworkInfo(i, ...)\<close> with \<^verbatim>\<open>duplicate\<close> cleared, and \<^verbatim>\<open>foundOnScan\<close> is set
  when an SSID equals the NVS entry; then come the sort and the duplicate marking.
\<close>

definition copySSIDInfo :: "environment \<Rightarrow> int \<Rightarrow> manager \<Rightarrow> manager" where
  "copySSIDInfo env n st =
     (if n > 0 then
        (let a0 = map (\<lambda>i. (getNetworkInfo env i)\<lparr>duplicate := False\<rparr>) [0..<nat n];
             found = (foundOnScan st \<or> list_ex (\<lambda>r. SSID r = nvs_network st) a0);
             st1 = st\<lparr>wifiSSIDs := Some a0, wifiSSIDCount := n, shouldscan := False,
                      foundOnScan := found\<rparr>;
             st2 = (if \<not> found
                    then st1\<lparr>time_now := t_copy env, ap_on := False, border := 2000\<rparr>
                    else st1);
             a1 = sort_outer (nat n) 0 a0;
             a2 = (if removeDuplicateAPs st2 then dedup_outer (nat n) 0 a1 else a1)
         in st2\<lparr>wifiSSIDs := Some a2\<rparr>)
      else st)"

text \<open>One entry of the listing: \<^verbatim>\<open>HTTP_ITEM\<close> with its three placeholders replaced, in the
  order of the code.\<close>

definition render_item :: "WiFiResult \<Rightarrow> nat \<Rightarrow> string" where
  "render_item r quality =
     (let item = replace ''{v}'' (SSID r) HTTP_ITEM;
          item = replace ''{r}'' (decimal quality) item
      in if encryptionType r \<noteq> WIFI_AUTH_OPEN
         then replace ''{i}'' ''l'' item
         else replace ''{i}'' [] item)"

text \<open>
  \<^verbatim>\<open>networkListAsString\<close>: the loop over \<open>i < wifiSSIDCount\<close>. Reading \<^verbatim>\<open>wifiSSIDs[i]\<close>
  through a \<^verbatim>\<open>NULL\<close> pointer or behind the end of the array is undefined in the source;
  the model returns \<open>None\<close> there.
\<close>

function networkList_loop :: "manager \<Rightarrow> nat \<Rightarrow> string \<Rightarrow> string option" where
  "networkList_loop st i pager =
     (if int i < wifiSSIDCount st then
        (case wifiSSIDs st of
           None \<Rightarrow> None
         | Some a \<Rightarrow>
             if i < length a then
               (if duplicate (a ! i) then networkList_loop st (Suc i) pager
                else if minimumQuality st = 0
                        \<or> minimumQuality st < getRSSIasQuality (RSSI (a ! i))
                     then networkList_loop st (Suc i)
                            (pager @ render_item (a ! i) (getRSSIasQuality (RSSI (a ! i))))
                     else networkList_loop st (Suc i) pager)
             else None)
      else Some pager)"
  by pat_completeness auto
termination
  by (relation "measure (\<lambda>(st, i, pager). nat (wifiSSIDCount st) - i)") auto

definition networkListAsString :: "manager \<Rightarrow> string option" where
  "networkListAsString st = networkList_loop st 0 []"

text \<open>
  The test the loop applies to an entry: it is rendered when it is not marked as a
  duplicate and \<^verbatim>\<open>_minimumQuality == 0 || _minimumQuality < quality\<close>.
\<close>

definition listed :: "manager \<Rightarrow> WiFiResult \<Rightarrow> bool" where
  "listed st r =
     (\<not> duplicate r \<and> (minimumQuality st = 0 \<or> minimumQuality st < getRSSIasQuality (RSSI r)))"

text \<open>
  The stored array is long enough for the stored count: under this condition the loop of
  \<^verbatim>\<open>networkListAsString\<close> reads inside the array.
\<close>

definition batch_wf :: "manager \<Rightarrow> bool" where
  "batch_wf st =
     (case wifiSSIDs st of
        None \<Rightarrow> wifiSSIDCount st \<le> 0
      | Some a \<Rightarrow> wifiSSIDCount st \<le> int (length a))"

text \<open>
  What the claims about rescanning look at: the flag \<^verbatim>\<open>shouldscan\<close>, the stored array and
  its count, and the number of calls of \<^verbatim>\<open>WiFi.scanNetworks(false)\<close> made so far.
\<close>

abbreviation scan_view :: "manager \<Rightarrow> bool \<times> WiFiResult list option \<times> int \<times> nat" where
  "scan_view st \<equiv>
     (shouldscan st, wifiSSIDs st, wifiSSIDCount st, count_list (trace st) (WiFiScanNetworks False))"

text \<open>\<^verbatim>\<open>scan(async)\<close>, with its static flag, and \<^verbatim>\<open>scanModal\<close>.\<close>

definition scan :: "environment \<Rightarrow> bool \<Rightarrow> manager \<Rightarrow> manager" where
  "scan env async st =
     (if \<not> shouldscan st then st
      else if wifiSSIDscan st then
        (if try_scan st
         then (copySSIDInfo env (scanNetworks_result env) (emit (WiFiScanNetworks async) st))
                \<lparr>try_scan := False\<rparr>
         else st)
      else st)"

definition scanModal :: "environment \<Rightarrow> manager \<Rightarrow> string option \<times> manager" where
  "scanModal env st = (let st1 = scan env False st in (networkListAsString st1, st1))"

subsection \<open>The HTTP handlers\<close>

text \<open>\<^verbatim>\<open>toStringIp\<close>: the four bytes of the address, lowest first, in decimal.\<close>

definition toStringIp :: "32 word \<Rightarrow> string" where
  "toStringIp ip =
     concat (map (\<lambda>i. decimal (unat (and (drop_bit (8 * i) ip) 0xFF)) @ ''.'') [0..<3])
     @ decimal (unat (and (drop_bit (8 * 3) ip) 0xFF))"

definition captivePortal :: "request \<Rightarrow> manager \<Rightarrow> bool \<times> manager" where
  "captivePortal req st =
     (if \<not> isIp (host req)
      then (True, emit (HttpSend 302 ''text/plain''
                          [(''Location'', ''http://'' @ toStringIp (localIP req) @ ''/'')]) st)
      else (False, st))"

definition handleNotFound :: "request \<Rightarrow> manager \<Rightarrow> manager" where
  "handleNotFound req st =
     (case captivePortal req st of
        (True, st1) \<Rightarrow> st1
      | (False, st1) \<Rightarrow>
          emit (HttpSend 302 ''text/plain''
                 [(''Location'', ''http://'' @ toStringIp (localIP req) @ ''/''),
                  (''Cache-Control'', ''no-cache, no-store, must-revalidate''),
                  (''Pragma'', ''no-cache''), (''Expires'', ''-1'')]) st1)"

text \<open>
  The parameter loop of \<^verbatim>\<open>handleWifiSave\<close>: it stops at the first \<^verbatim>\<open>NULL\<close> slot; for
  the others it reads the argument named by the parameter's id and copies it with
  \<^verbatim>\<open>toCharArray(_value, _length)\<close>.
\<close>

function save_params :: "request \<Rightarrow> nat \<Rightarrow> manager \<Rightarrow> manager" where
  "save_params req i st =
     (if i < paramsCount st then
        (case params st i of
           None \<Rightarrow> st
         | Some p \<Rightarrow>
             save_params req (Suc i)
               (st\<lparr>params := (params st)
                  (i \<mapsto> p\<lparr>p_value :=
                       toCharArray (c_str (arg req (case p_id p of None \<Rightarrow> [] | Some n \<Rightarrow> n)))
                         (p_value p) (p_length p)\<rparr>)\<rparr>))
      else st)"
  by pat_completeness auto
termination
  by (relation "measure (\<lambda>(req, i, st). paramsCount st - i)") auto

text \<open>
  \<^verbatim>\<open>handleWifiSave\<close>. \<^verbatim>\<open>IPAddress::fromString\<close> belongs to the Arduino core; it is the
  parameter \<open>fromString\<close>, which maps the address before the call and the text to the
  address after it (the code ignores its result).
\<close>

definition handleWifiSave ::
  "(32 word \<Rightarrow> string \<Rightarrow> 32 word) \<Rightarrow> 32 word \<Rightarrow> request \<Rightarrow> manager \<Rightarrow> manager" where
  "handleWifiSave fromString now req st =
     (let st1 = st\<lparr>nvs_stand_alone := 0, time_now := now, ap_on := False, border := 20000,
                  needInfo := True, ssid := c_str (arg req ''s''), pass := c_str (arg req ''p'')\<rparr>;
          st2 = save_params req 0 st1;
          st3 = (if hasArg req ''ip''
                 then st2\<lparr>sta_static_ip := fromString (sta_static_ip st2) (c_str (arg req ''ip''))\<rparr>
                 else st2);
          st4 = (if hasArg req ''gw''
                 then st3\<lparr>sta_static_gw := fromString (sta_static_gw st3) (c_str (arg req ''gw''))\<rparr>
                 else st3);
          st5 = (if hasArg req ''sn''
                 then st4\<lparr>sta_static_sn := fromString (sta_static_sn st4) (c_str (arg req ''sn''))\<rparr>
                 else st4);
          st6 = (if hasArg req ''dns1''
                 then st5\<lparr>sta_static_dns1 := fromString (sta_static_dns1 st5) (c_str (arg req ''dns1''))\<rparr>
                 else st5);
          st7 = (if hasArg req ''dns2''
                 then st6\<lparr>sta_static_dns2 := fromString (sta_static_dns2 st6) (c_str (arg req ''dns2''))\<rparr>
                 else st6);
          st8 = emit (HttpSend 200 ''text/html'' []) st7
      in st8\<lparr>connect := True, saveAttempted := True, save_attempted := 1\<rparr>)"

subsection \<open>Connecting\<close>

text \<open>\<^verbatim>\<open>setInfo\<close>; the page text it builds is not modelled.\<close>

definition setInfo :: "environment \<Rightarrow> manager \<Rightarrow> manager" where
  "setInfo env st = st\<lparr>wifiStatus := info_status env, needInfo := False\<rparr>"

text \<open>
  The polling loop of \<^verbatim>\<open>waitForConnectResult\<close>, one reading per pass: the pass ends
  the loop when \<^verbatim>\<open>millis() > start + _connectTimeout\<close> (computed in 32 bits) or the
  status is connected or failed, and the loop returns the status read last. With no
  reading left the loop has not returned: \<open>None\<close>.
\<close>

fun poll_loop :: "32 word \<Rightarrow> 32 word \<Rightarrow> (wl_status \<times> 32 word) list \<Rightarrow> wl_status option" where
  "poll_loop start tmo [] = None"
| "poll_loop start tmo ((status, now) # rest) =
     (if now > start + tmo \<or> status = WL_CONNECTED \<or> status = WL_CONNECT_FAILED
      then Some status
      else poll_loop start tmo rest)"

definition waitForConnectResult :: "environment \<Rightarrow> manager \<Rightarrow> wl_status option" where
  "waitForConnectResult env st =
     (if connectTimeout st = 0 then Some (lib_waitForConnectResult env)
      else poll_loop (t_wait_start env) (connectTimeout st) (polls env))"

text \<open>
  The calls the same loop makes: every pass starts with \<^verbatim>\<open>esp_task_wdt_reset()\<close> and
  ends with \<^verbatim>\<open>delay(100)\<close>. With \<^verbatim>\<open>_connectTimeout\<close> equal to 0 the function makes none
  of its own.
\<close>

fun poll_calls :: "32 word \<Rightarrow> 32 word \<Rightarrow> (wl_status \<times> 32 word) list \<Rightarrow> effect list" where
  "poll_calls start tmo [] = []"
| "poll_calls start tmo ((status, now) # rest) =
     WdtReset # Delay 100 #
     (if now > start + tmo \<or> status = WL_CONNECTED \<or> status = WL_CONNECT_FAILED
      then []
      else poll_calls start tmo rest)"

definition waitForConnectResult_calls :: "environment \<Rightarrow> manager \<Rightarrow> effect list" where
  "waitForConnectResult_calls env st =
     (if connectTimeout st = 0 then []
      else poll_calls (t_wait_start env) (connectTimeout st) (polls env))"

text \<open>
  \<^verbatim>\<open>connectWifi(ssid, pass)\<close>. The result is \<open>None\<close> when the wait has not returned
  within the readings given.
\<close>

definition connectWifi ::
  "environment \<Rightarrow> string \<Rightarrow> string \<Rightarrow> manager \<Rightarrow> wl_status option \<times> manager" where
  "connectWifi env ssid_arg pass_arg st =
     (let st1 = (if sta_static_ip st \<noteq> 0
                 then emit (WiFiConfig (sta_static_ip st) (sta_static_gw st) (sta_static_sn st)
                              (sta_static_dns1 st) (sta_static_dns2 st)) st
                 else st);
          st2 = (if ssid_arg \<noteq> []
                 then emit (WiFiBeginWith ssid_arg pass_arg) (emit (WiFiDisconnect False) st1)
                 else if sta_ssid_stored env
                      then emit WiFiBegin (emit (WiFiDisconnect False) st1)
                      else emit WiFiBegin st1);
          st3 = st2\<lparr>trace := trace st2 @ waitForConnectResult_calls env st2\<rparr>
      in case waitForConnectResult env st2 of
           None \<Rightarrow> (None, st3)
         | Some connRes \<Rightarrow> (Some connRes, setInfo env st3))"

subsection \<open>The blocking portal\<close>

text \<open>
  What \<^verbatim>\<open>startConfigPortal\<close> reads outside its loop: \<^verbatim>\<open>millis()\<close> in
  \<^verbatim>\<open>setupConfigPortal\<close>, the status read by \<^verbatim>\<open>setInfo\<close> there, \<^verbatim>\<open>millis()\<close> before the
  loop, and the status read for the return value. \<open>stand_alone\<close> is the build option
  \<^verbatim>\<open>CONFIG_STAND_ALONE\<close>.
\<close>

record portal_env =
  stand_alone :: bool
  t_setup :: "32 word"
  setup_status :: wl_status
  t_start :: "32 word"
  final_status :: wl_status

definition setupConfigPortal :: "portal_env \<Rightarrow> manager \<Rightarrow> manager" where
  "setupConfigPortal penv st =
     (let st1 = (emit ServerReset st)\<lparr>configPortalStart := t_setup penv\<rparr>;
          st2 = (case apPassword st1 of
                   None \<Rightarrow> st1
                 | Some pw \<Rightarrow> if length pw < 8 \<or> length pw > 63
                             then st1\<lparr>apPassword := None\<rparr> else st1);
          st3 = (if ap_static_ip st2 \<noteq> 0
                 then emit (SoftAPConfig (ap_static_ip st2) (ap_static_gw st2) (ap_static_sn st2)) st2
                 else st2);
          st4 = emit (Delay 500) (emit (SoftAP (apName st3) (apPassword st3)) st3);
          st5 = (emit DnsStart st4)\<lparr>wifiStatus := setup_status penv, needInfo := False\<rparr>;
          routes = [''/'', ''/api/v2/wifi/scan'', ''/api/v2/wifi/save'', ''/api/v2/wifi/info'',
                    ''/api/v2/wifi/reset'']
                   @ (if stand_alone penv
                      then [''/api/v2/wifi/stand_alone'', ''/api/v2/wifi/stand_alone_yes'',
                            ''/api/v2/wifi/stand_alone_no'']
                      else [])
                   @ [''/fwlink'']
      in emit ServerBegin (emit ServerOnNotFound
           (st5\<lparr>trace := trace st5 @ map ServerOn routes\<rparr>)))"

text \<open>
  How a pass through the loop body ends: it goes on to the next pass, it leaves the loop
  (by the loop condition or by one of the three \<^verbatim>\<open>break\<close>s), it is still waiting inside
  \<^verbatim>\<open>connectWifi\<close>, or it has read the scan array out of range.
\<close>

datatype exit_reason = TimedOut | RadioConnected | SaveConnected | BreakAfterConfig

datatype outcome = Continue | Break exit_reason | Blocked | Fault

definition loop_condition :: "32 word \<Rightarrow> manager \<Rightarrow> bool" where
  "loop_condition now st =
     (configPortalTimeout st = 0 \<or> now - configPortalStart st < configPortalTimeout st)"

definition ap_step :: "environment \<Rightarrow> manager \<Rightarrow> manager" where
  "ap_step env st =
     (if (t_ap1 env - time_now st > border st
          \<or> (\<not> foundOnScan st \<and> t_ap2 env - time_now st > border st))
         \<and> \<not> ap_on st
      then (emit WiFiModeAP st)\<lparr>ap_on := True\<rparr>
      else st)"

definition scan_due :: "environment \<Rightarrow> manager \<Rightarrow> bool" where
  "scan_due env st = (scannow st = 0 \<or> t_scandue env - scannow st \<ge> 1000000)"

text \<open>
  The scan block of the loop. The first component of the state is the local
  \<^verbatim>\<open>connectedDuringConfigPortal\<close>.
\<close>

definition scan_step :: "environment \<Rightarrow> bool \<times> manager \<Rightarrow> (bool \<times> manager) option" where
  "scan_step env s =
     (case s of (cdcp, st) \<Rightarrow>
        if scan_due env st then
          (case scanModal env (emit (WiFiDisconnect False) st) of
             (None, st1) \<Rightarrow> None
           | (Some pager, st1) \<Rightarrow>
               if tryConnectDuringConfigPortal st1
               then Some (True, (emit WiFiBegin st1)\<lparr>scannow := t_scanstamp env\<rparr>)
               else Some (cdcp, st1\<lparr>scannow := t_scanstamp env\<rparr>))
        else Some (cdcp, st))"

definition break_after_config :: "manager \<Rightarrow> outcome \<times> manager" where
  "break_after_config st =
     (if shouldBreakAfterConfig st
      then (Break BreakAfterConfig, if savecallback st then emit SaveCallback st else st)
      else (Continue, emit Yield st))"

text \<open>The block under \<^verbatim>\<open>if (connect)\<close>, with the \<^verbatim>\<open>yield()\<close> that ends the pass.\<close>

definition connect_step :: "environment \<Rightarrow> manager \<Rightarrow> outcome \<times> manager" where
  "connect_step env st =
     (if connect st then
        (let st1 = emit (WiFiPersistent True) (emit (Delay 2000) (st\<lparr>connect := False\<rparr>))
         in if tryConnectDuringConfigPortal st1 then
              (case connectWifi env (ssid st1) (pass st1) st1 of
                 (None, st2) \<Rightarrow> (Blocked, st2)
               | (Some connRes, st2) \<Rightarrow>
                   if connRes = WL_CONNECTED
                   then (Break SaveConnected,
                         (let st3 = emit (WiFiPersistent False) st2
                          in if savecallback st3 then emit SaveCallback st3 else st3))
                   else break_after_config (st2\<lparr>time_now := t_fail env\<rparr>))
            else break_after_config st1)
      else (Continue, emit Yield st))"

text \<open>
  The status test of the loop and the rest of the body after it.
\<close>

definition status_step :: "environment \<Rightarrow> bool \<times> manager \<Rightarrow> outcome \<times> bool \<times> manager" where
  "status_step env s =
     (case s of (cdcp, st) \<Rightarrow>
        if loop_status env = WL_CONNECTED
        then (Break RadioConnected, cdcp,
              if \<not> cdcp \<and> savecallback st then emit SaveCallback st else st)
        else (case connect_step env st of (out, st1) \<Rightarrow> (out, cdcp, st1)))"

text \<open>The save-form submissions handled since the previous pass, in order.\<close>

definition handle_requests ::
  "(32 word \<Rightarrow> string \<Rightarrow> 32 word) \<Rightarrow> environment \<Rightarrow> manager \<Rightarrow> manager" where
  "handle_requests fromString env st =
     foldl (\<lambda>acc (now, req). handleWifiSave fromString now req acc) st (requests env)"

text \<open>
  The body of the loop up to the test of \<^verbatim>\<open>connect\<close>: the AP switch, the watchdog and
  DNS calls, and the scan block.
\<close>

definition body_head :: "environment \<Rightarrow> bool \<times> manager \<Rightarrow> (bool \<times> manager) option" where
  "body_head env s =
     (case s of (cdcp, st) \<Rightarrow>
        scan_step env (cdcp, emit DnsProcessNextRequest (emit WdtReset (ap_step env st))))"

text \<open>
  One evaluation of the loop condition and, when it holds, one pass through the body.
\<close>

definition portal_iteration ::
  "(32 word \<Rightarrow> string \<Rightarrow> 32 word) \<Rightarrow> environment \<Rightarrow> bool \<times> manager \<Rightarrow> outcome \<times> bool \<times> manager" where
  "portal_iteration fromString env s =
     (case s of (cdcp, st) \<Rightarrow>
        (let st0 = handle_requests fromString env st
         in if \<not> loop_condition (t_loop env) st0 then (Break TimedOut, cdcp, st0)
            else (case body_head env (cdcp, st0) of
                    None \<Rightarrow> (Fault, cdcp, st0)
                  | Some s1 \<Rightarrow> status_step env s1)))"

text \<open>
  The loop, run on the readings of finitely many passes. \<open>Continue\<close> as a result says
  that the loop is still running after them.
\<close>

fun run_portal ::
  "(32 word \<Rightarrow> string \<Rightarrow> 32 word) \<Rightarrow> environment list \<Rightarrow> bool \<times> manager \<Rightarrow> outcome \<times> bool \<times> manager" where
  "run_portal fromString [] s = (Continue, s)"
| "run_portal fromString (env # envs) s =
     (case portal_iteration fromString env s of
        (Continue, s1) \<Rightarrow> run_portal fromString envs s1
      | (out, s1) \<Rightarrow> (out, s1))"

text \<open>
  \<^verbatim>\<open>startConfigPortal(apName, apPassword)\<close>, first the part before the loop. The call
  returns when the loop is left; the result then holds the way the loop was left, the
  value returned (\<^verbatim>\<open>WiFi.status() == WL_CONNECTED\<close>) and the manager. \<open>None\<close> says that
  the call has not returned on the readings given.
\<close>

definition portal_start :: "portal_env \<Rightarrow> string \<Rightarrow> string option \<Rightarrow> manager \<Rightarrow> manager" where
  "portal_start penv apName_arg apPassword_arg st =
     (let st1 = st\<lparr>apName := apName_arg, apPassword := apPassword_arg\<rparr>;
          st2 = (if apcallback st1 then emit ApCallback st1 else st1);
          st3 = (setupConfigPortal penv (st2\<lparr>connect := False\<rparr>))\<lparr>scannow := 0\<rparr>
      in st3\<lparr>time_now := t_start penv\<rparr>)"

definition startConfigPortal ::
  "(32 word \<Rightarrow> string \<Rightarrow> 32 word) \<Rightarrow> portal_env \<Rightarrow> environment list \<Rightarrow> string \<Rightarrow> string option
     \<Rightarrow> manager \<Rightarrow> (exit_reason \<times> bool \<times> manager) option" where
  "startConfigPortal fromString penv envs apName_arg apPassword_arg st =
     (case run_portal fromString envs (False, portal_start penv apName_arg apPassword_arg st) of
        (Break r, cdcp, st5) \<Rightarrow>
          Some (r, final_status penv = WL_CONNECTED, emit DnsStop (emit ServerReset st5))
      | (out, s5) \<Rightarrow> None)"

subsection \<open>Concrete inputs\<close>

text \<open>
  The inputs at which the theorems below are instantiated: the program state at boot
  (the memory of the manager zeroed, the statics at their initial values) and the manager
  constructed on it, a network as the driver reports it, and the readings of a pass
  during which nothing happens outside (four networks in range on a scan, the station
  not connected).
\<close>

definition at_boot :: manager where
  "at_boot =
     \<lparr>scannow = 0, shouldscan = False, needInfo = False, time_now = 0, foundOnScan = False,
      ap_on = False, border = 0, wifiStatus = WL_IDLE_STATUS, apName = [], apPassword = None,
      ssid = [], pass = [], configPortalTimeout = 0, connectTimeout = 0, configPortalStart = 0,
      ap_static_ip = 0, ap_static_gw = 0, ap_static_sn = 0, sta_static_ip = 0,
      sta_static_gw = 0, sta_static_sn = 0, sta_static_dns1 = 0, sta_static_dns2 = 0,
      paramsCount = 0, minimumQuality = 0, removeDuplicateAPs = False,
      shouldBreakAfterConfig = False, connect = False, wifiSSIDs = None, wifiSSIDCount = 0,
      wifiSSIDscan = False, tryConnectDuringConfigPortal = False, apcallback = False,
      savecallback = False, params = (\<lambda>i. None), try_scan = True, saveAttempted = False,
      save_attempted = 0, nvs_network = [], nvs_stand_alone = 0, trace = []\<rparr>"

definition fresh_manager :: manager where
  "fresh_manager = AsyncWiFiManager_ctor at_boot"

definition network :: "string \<Rightarrow> int \<Rightarrow> WiFiResult" where
  "network name rssi =
     \<lparr>duplicate = True, SSID = name, encryptionType = 3, RSSI = rssi, BSSID = [],
      channel = 1, isHidden = False\<rparr>"

definition in_range :: "WiFiResult list" where
  "in_range = [network ''home'' (- 80), network ''cafe'' (- 96), network ''home'' (- 60),
               network ''far'' (- 97)]"

definition quiet :: environment where
  "quiet =
     \<lparr>requests = [], t_loop = 100, t_ap1 = 100, t_ap2 = 100, t_scandue = 100,
      scanNetworks_result = 4, getNetworkInfo = (\<lambda>i. in_range ! i), t_copy = 100,
      t_scanstamp = 100, loop_status = WL_DISCONNECTED, sta_ssid_stored = False,
      lib_waitForConnectResult = WL_CONNECTED, t_wait_start = 100, polls = [],
      info_status = WL_CONNECTED, t_fail = 100\<rparr>"

definition at_start :: portal_env where
  "at_start =
     \<lparr>stand_alone = True, t_setup = 50, setup_status = WL_DISCONNECTED, t_start = 60,
      final_status = WL_DISCONNECTED\<rparr>"

text \<open>A \<^verbatim>\<open>fromString\<close> that parses nothing and leaves the address as it was.\<close>

definition no_parse :: "32 word \<Rightarrow> string \<Rightarrow> 32 word" where
  "no_parse a text = a"

text \<open>
  A parameter with id \<open>k\<close> and declared length 5, built by the constructor of four
  arguments (which passes the empty string as custom HTML to \<^verbatim>\<open>init\<close>), a save-form
  submission that sends six characters for it, and a registry to which ten parameters
  were added.
\<close>

definition key_param :: AsyncWiFiManagerParameter where
  "key_param =
     AsyncWiFiManagerParameter_init (\<lambda>i. CHR ''?'') (Some ''k'') (Some ''key'') None 5 (Some [])"

definition save_request :: request where
  "save_request =
     \<lparr>host = ''4.3.2.1'', args = [(''s'', ''home''), (''p'', ''secret''), (''k'', ''abcdef'')],
      localIP = 0x01020304\<rparr>"

definition full_registry :: manager where
  "full_registry = (addParameter key_param ^^ 10) fresh_manager"

text \<open>
  Readings of other passes: a scan that finds one network of quality 8; a pass two
  thousand seconds later with a new network in range; a pass before which the save form
  was submitted; a pass five seconds after boot; a pass in which the radio reports that
  the station is connected; a pass whose scan finds nothing. Then managers with a portal
  timeout of three seconds, constructed on memory that holds 7 where the uninitialised
  \<^verbatim>\<open>wifiSSIDCount\<close> lies, and with \<^verbatim>\<open>_tryConnectDuringConfigPortal\<close> off, and the state
  of the portal loop after one quiet pass.
\<close>

definition one_weak :: environment where
  "one_weak = quiet\<lparr>scanNetworks_result := 1, getNetworkInfo := (\<lambda>i. network ''cafe'' (- 96))\<rparr>"

definition second_pass :: environment where
  "second_pass =
     quiet\<lparr>t_loop := 2000100, t_ap1 := 2000100, t_ap2 := 2000100, t_scandue := 2000100,
           scanNetworks_result := 1, getNetworkInfo := (\<lambda>i. network ''new'' (- 40)),
           t_scanstamp := 2000100\<rparr>"

definition saving :: environment where
  "saving = quiet\<lparr>requests := [(150, save_request)], t_loop := 200, t_ap1 := 200, t_ap2 := 200,
                  t_scandue := 200\<rparr>"

definition late :: environment where
  "late = quiet\<lparr>t_loop := 5000\<rparr>"

definition joined :: environment where
  "joined = quiet\<lparr>loop_status := WL_CONNECTED\<rparr>"

definition fruitless :: environment where
  "fruitless = quiet\<lparr>scanNetworks_result := 0\<rparr>"

definition bounded :: manager where
  "bounded = setConfigPortalTimeout 3 fresh_manager"

definition stale :: manager where
  "stale = AsyncWiFiManager_ctor (at_boot\<lparr>wifiSSIDCount := 7\<rparr>)"

definition gated :: manager where
  "gated = setTryConnectDuringConfigPortal False fresh_manager"

definition first_pass :: "manager \<Rightarrow> bool \<times> manager" where
  "first_pass st = snd (run_portal no_parse [quiet] (False, portal_start at_start ''ap'' None st))"

section \<open>Properties\<close>

subsection \<open>The loops of the scan cache\<close>

text \<open>
  The recursive equations of the loops are unfolded by hand, one step at a time, in the
  inductions below.
\<close>

declare sort_inner.simps [simp del] sort_outer.simps [simp del]
  dedup_inner.simps [simp del] dedup_outer.simps [simp del]
  networkList_loop.simps [simp del]

lemma sort_inner_length [simp]: "length (sort_inner n i j a) = length a"
  by (induction n i j a rule: sort_inner.induct) (subst sort_inner.simps, simp)

lemma sort_outer_length [simp]: "length (sort_outer n i a) = length a"
  by (induction n i a rule: sort_outer.induct) (subst sort_outer.simps, simp)

lemma sort_inner_mset:
  "i < j \<Longrightarrow> n = length a \<Longrightarrow> mset (sort_inner n i j a) = mset a"
proof (induction n i j a rule: sort_inner.induct)
  case (1 n i j a)
  show ?case
  proof (cases "j < n")
    case True
    let ?a' = "if RSSI (a ! i) < RSSI (a ! j) then a[i := a ! j, j := a ! i] else a"
    have len: "n = length ?a'" using 1 by simp
    have "mset (sort_inner n i (Suc j) ?a') = mset ?a'"
      using 1 True len by simp
    moreover have "mset ?a' = mset a" using 1 True by (simp add: mset_swap)
    ultimately show ?thesis using True by (subst sort_inner.simps) simp
  next
    case False
    then show ?thesis by (subst sort_inner.simps) simp
  qed
qed

lemma sort_inner_prefix:
  "i < j \<Longrightarrow> k < i \<Longrightarrow> sort_inner n i j a ! k = a ! k"
proof (induction n i j a rule: sort_inner.induct)
  case (1 n i j a)
  show ?case
  proof (cases "j < n")
    case True
    let ?a' = "if RSSI (a ! i) < RSSI (a ! j) then a[i := a ! j, j := a ! i] else a"
    have "sort_inner n i (Suc j) ?a' ! k = ?a' ! k" using 1 True by simp
    moreover have "?a' ! k = a ! k" using 1 by simp
    ultimately show ?thesis using True by (subst sort_inner.simps) simp
  next
    case False
    then show ?thesis by (subst sort_inner.simps) simp
  qed
qed

lemma sort_inner_max:
  "i < j \<Longrightarrow> n = length a \<Longrightarrow> \<forall>k. i < k \<and> k < j \<longrightarrow> RSSI (a ! k) \<le> RSSI (a ! i)
     \<Longrightarrow> i < k \<Longrightarrow> k < n \<Longrightarrow> RSSI (sort_inner n i j a ! k) \<le> RSSI (sort_inner n i j a ! i)"
proof (induction n i j a rule: sort_inner.induct)
  case (1 n i j a)
  show ?case
  proof (cases "j < n")
    case True
    let ?a' = "if RSSI (a ! i) < RSSI (a ! j) then a[i := a ! j, j := a ! i] else a"
    have len: "n = length ?a'" using 1 by simp
    have inv: "\<forall>k. i < k \<and> k < Suc j \<longrightarrow> RSSI (?a' ! k) \<le> RSSI (?a' ! i)"
    proof (intro allI impI)
      fix m assume m: "i < m \<and> m < Suc j"
      show "RSSI (?a' ! m) \<le> RSSI (?a' ! i)"
      proof (cases "m = j")
        case True
        then show ?thesis using 1(2,3) \<open>j < n\<close> by auto
      next
        case False
        then have "m < j" using m by simp
        then have "RSSI (a ! m) \<le> RSSI (a ! i)" using 1(4) m by simp
        then show ?thesis using 1(2,3) \<open>j < n\<close> \<open>m < j\<close> m by auto
      qed
    qed
    have "RSSI (sort_inner n i (Suc j) ?a' ! k) \<le> RSSI (sort_inner n i (Suc j) ?a' ! i)"
      using "1.IH"[OF True _ len inv] 1(2,5,6) by simp
    then show ?thesis using True by (subst (1 2) sort_inner.simps) simp
  next
    case False
    then show ?thesis using 1 by (subst (1 2) sort_inner.simps) simp
  qed
qed

lemma in_set_drop_nth:
  "x \<in> set (drop i xs) \<longleftrightarrow> (\<exists>m. i \<le> m \<and> m < length xs \<and> xs ! m = x)"
proof
  assume "x \<in> set (drop i xs)"
  then obtain k where "k < length xs - i" "drop i xs ! k = x"
    by (auto simp: in_set_conv_nth)
  then have "i \<le> i + k \<and> i + k < length xs \<and> xs ! (i + k) = x" by auto
  then show "\<exists>m. i \<le> m \<and> m < length xs \<and> xs ! m = x" by blast
next
  assume "\<exists>m. i \<le> m \<and> m < length xs \<and> xs ! m = x"
  then obtain m where m: "i \<le> m" "m < length xs" "xs ! m = x" by blast
  then have "m - i < length (drop i xs)" "drop i xs ! (m - i) = x" by auto
  then show "x \<in> set (drop i xs)" by (metis nth_mem)
qed

lemma sort_inner_mset_drop:
  assumes "i < j" "n = length a"
  shows "mset (drop i (sort_inner n i j a)) = mset (drop i a)"
proof -
  let ?b = "sort_inner n i j a"
  have "take i ?b = take i a"
    by (rule nth_equalityI) (use assms in \<open>auto simp: sort_inner_prefix\<close>)
  moreover have "mset (take i ?b) + mset (drop i ?b) = mset (take i a) + mset (drop i a)"
    using sort_inner_mset[OF assms] by (metis append_take_drop_id mset_append)
  ultimately show ?thesis by simp
qed

lemma sort_outer_mset: "n = length a \<Longrightarrow> mset (sort_outer n i a) = mset a"
proof (induction n i a rule: sort_outer.induct)
  case (1 n i a)
  show ?case
  proof (cases "i < n")
    case True
    then show ?thesis using 1 by (subst sort_outer.simps) (simp add: sort_inner_mset)
  next
    case False
    then show ?thesis by (subst sort_outer.simps) simp
  qed
qed

lemma sort_outer_sorted:
  "n = length a \<Longrightarrow> \<forall>k l. k < i \<and> k < l \<and> l < n \<longrightarrow> RSSI (a ! l) \<le> RSSI (a ! k)
     \<Longrightarrow> k < l \<Longrightarrow> l < n \<Longrightarrow> RSSI (sort_outer n i a ! l) \<le> RSSI (sort_outer n i a ! k)"
proof (induction n i a rule: sort_outer.induct)
  case (1 n i a)
  show ?case
  proof (cases "i < n")
    case True
    let ?b = "sort_inner n i (Suc i) a"
    have len: "n = length ?b" using 1 by simp
    have inv: "\<forall>k l. k < Suc i \<and> k < l \<and> l < n \<longrightarrow> RSSI (?b ! l) \<le> RSSI (?b ! k)"
    proof (intro allI impI)
      fix p q assume pq: "p < Suc i \<and> p < q \<and> q < n"
      show "RSSI (?b ! q) \<le> RSSI (?b ! p)"
      proof (cases "p = i")
        case True
        then show ?thesis using sort_inner_max[of i "Suc i" n a q] 1(2) pq by simp
      next
        case False
        then have p: "p < i" using pq by simp
        then have bp: "?b ! p = a ! p" by (simp add: sort_inner_prefix)
        show ?thesis
        proof (cases "q < i")
          case True
          then have "?b ! q = a ! q" by (simp add: sort_inner_prefix)
          then show ?thesis using bp 1(3) p pq by simp
        next
          case False
          then have "i \<le> q \<and> q < length ?b \<and> ?b ! q = ?b ! q"
            using pq len by simp
          then have "?b ! q \<in> set (drop i ?b)"
            unfolding in_set_drop_nth by blast
          then have "?b ! q \<in># mset (drop i a)"
            using sort_inner_mset_drop[of i "Suc i" n a] 1(2) by (metis lessI set_mset_mset)
          then have "?b ! q \<in> set (drop i a)" by simp
          then obtain m where "i \<le> m" "m < length a" "?b ! q = a ! m"
            by (auto simp: in_set_drop_nth)
          then show ?thesis using bp 1(2,3) p by auto
        qed
      qed
    qed
    show ?thesis
      using "1.IH"[OF True len inv] 1(4,5) True by (subst (1 2) sort_outer.simps) simp
  next
    case False
    then show ?thesis using 1 by (subst (1 2) sort_outer.simps) simp
  qed
qed

lemma dedup_inner_length [simp]: "length (dedup_inner n c j a) = length a"
  by (induction n c j a rule: dedup_inner.induct) (subst dedup_inner.simps, simp)

lemma dedup_outer_length [simp]: "length (dedup_outer n i a) = length a"
  by (induction n i a rule: dedup_outer.induct) (subst dedup_outer.simps, simp)


lemma dedup_inner_nth:
  "n = length a \<Longrightarrow> m < n \<Longrightarrow>
   dedup_inner n c j a ! m =
     (if j \<le> m \<and> SSID (a ! m) = c then (a ! m)\<lparr>duplicate := True\<rparr> else a ! m)"
proof (induction n c j a rule: dedup_inner.induct)
  case (1 n c j a)
  show ?case
  proof (cases "j < n")
    case True
    define a' where "a' = (if c = SSID (a ! j) then a[j := (a ! j)\<lparr>duplicate := True\<rparr>] else a)"
    have len: "n = length a'" using 1(2) by (simp add: a'_def)
    have step: "dedup_inner n c (Suc j) a' ! m =
        (if Suc j \<le> m \<and> SSID (a' ! m) = c then (a' ! m)\<lparr>duplicate := True\<rparr> else a' ! m)"
      unfolding a'_def by (rule "1.IH"[OF True len[unfolded a'_def] 1(3)])
    have unf: "dedup_inner n c j a = dedup_inner n c (Suc j) a'"
      unfolding a'_def using True by (subst dedup_inner.simps) simp
    have mj: "m = j \<Longrightarrow> a' ! m = (if c = SSID (a ! j) then (a ! j)\<lparr>duplicate := True\<rparr> else a ! j)"
      using 1(2) True by (simp add: a'_def)
    have mnj: "m \<noteq> j \<Longrightarrow> a' ! m = a ! m"
      by (simp add: a'_def)
    have "dedup_inner n c j a ! m = dedup_inner n c (Suc j) a' ! m" by (simp only: unf)
    also have "\<dots> = (if Suc j \<le> m \<and> SSID (a' ! m) = c then (a' ! m)\<lparr>duplicate := True\<rparr> else a' ! m)"
      by (rule step)
    also have "\<dots> = (if j \<le> m \<and> SSID (a ! m) = c then (a ! m)\<lparr>duplicate := True\<rparr> else a ! m)"
    proof (cases "m = j")
      case True
      have "a' ! j = (if c = SSID (a ! j) then (a ! j)\<lparr>duplicate := True\<rparr> else a ! j)"
        using mj True by simp
      then show ?thesis unfolding True by (cases "c = SSID (a ! j)") simp_all
    next
      case False
      have "a' ! m = a ! m" using mnj False by simp
      then show ?thesis using False by auto
    qed
    finally show ?thesis .
  next
    case False
    then show ?thesis using 1(3) by (subst dedup_inner.simps) simp
  qed
qed


lemma dedup_inner_SSID:
  "n = length a \<Longrightarrow> m < n \<Longrightarrow> SSID (dedup_inner n c j a ! m) = SSID (a ! m)"
  by (simp add: dedup_inner_nth)

lemma dedup_inner_RSSI:
  "n = length a \<Longrightarrow> m < n \<Longrightarrow> RSSI (dedup_inner n c j a ! m) = RSSI (a ! m)"
  by (simp add: dedup_inner_nth)

lemma dedup_outer_SSID:
  "n = length a \<Longrightarrow> m < n \<Longrightarrow> SSID (dedup_outer n i a ! m) = SSID (a ! m)"
proof (induction n i a rule: dedup_outer.induct)
  case (1 n i a)
  show ?case
  proof (cases "i < n")
    case True
    let ?b = "dedup_inner n (SSID (a ! i)) (Suc i) a"
    have len: "n = length ?b" using 1(3) by simp
    show ?thesis
    proof (cases "duplicate (a ! i)")
      case dup: True
      have "dedup_outer n i a = dedup_outer n (Suc i) a"
        using True dup by (subst dedup_outer.simps) simp
      then show ?thesis using "1.IH"(1)[OF True dup 1(3,4)] by simp
    next
      case nodup: False
      have "dedup_outer n i a = dedup_outer n (Suc i) ?b"
        using True nodup by (subst dedup_outer.simps) simp
      then show ?thesis
        using "1.IH"(2)[OF True nodup len 1(4)] dedup_inner_SSID[OF 1(3,4)] by simp
    qed
  next
    case False
    then show ?thesis by (subst dedup_outer.simps) simp
  qed
qed

lemma dedup_outer_RSSI:
  "n = length a \<Longrightarrow> m < n \<Longrightarrow> RSSI (dedup_outer n i a ! m) = RSSI (a ! m)"
proof (induction n i a rule: dedup_outer.induct)
  case (1 n i a)
  show ?case
  proof (cases "i < n")
    case True
    let ?b = "dedup_inner n (SSID (a ! i)) (Suc i) a"
    have len: "n = length ?b" using 1(3) by simp
    show ?thesis
    proof (cases "duplicate (a ! i)")
      case dup: True
      have "dedup_outer n i a = dedup_outer n (Suc i) a"
        using True dup by (subst dedup_outer.simps) simp
      then show ?thesis using "1.IH"(1)[OF True dup 1(3,4)] by simp
    next
      case nodup: False
      have "dedup_outer n i a = dedup_outer n (Suc i) ?b"
        using True nodup by (subst dedup_outer.simps) simp
      then show ?thesis
        using "1.IH"(2)[OF True nodup len 1(4)] dedup_inner_RSSI[OF 1(3,4)] by simp
    qed
  next
    case False
    then show ?thesis by (subst dedup_outer.simps) simp
  qed
qed

lemma dedup_outer_dup:
  "n = length a \<Longrightarrow>
   \<forall>j<n. duplicate (a ! j) \<longleftrightarrow> (\<exists>k. k < i \<and> k < j \<and> SSID (a ! k) = SSID (a ! j)) \<Longrightarrow>
   j < n \<Longrightarrow>
   duplicate (dedup_outer n i a ! j) \<longleftrightarrow> (\<exists>k<j. SSID (a ! k) = SSID (a ! j))"
proof (induction n i a rule: dedup_outer.induct)
  case (1 n i a)
  show ?case
  proof (cases "i < n")
    case True
    show ?thesis
    proof (cases "duplicate (a ! i)")
      case dup: True
      have eq: "dedup_outer n i a = dedup_outer n (Suc i) a"
        using True dup by (subst dedup_outer.simps) simp
      from dup obtain k0 where k0: "k0 < i" "SSID (a ! k0) = SSID (a ! i)"
        using 1(4) True by blast
      have inv: "\<forall>j<n. duplicate (a ! j) \<longleftrightarrow> (\<exists>k. k < Suc i \<and> k < j \<and> SSID (a ! k) = SSID (a ! j))"
      proof (intro allI impI)
        fix j assume j: "j < n"
        show "duplicate (a ! j) \<longleftrightarrow> (\<exists>k. k < Suc i \<and> k < j \<and> SSID (a ! k) = SSID (a ! j))"
        proof
          assume "duplicate (a ! j)"
          then show "\<exists>k. k < Suc i \<and> k < j \<and> SSID (a ! k) = SSID (a ! j)"
            using 1(4) j by (meson less_Suc_eq)
        next
          assume "\<exists>k. k < Suc i \<and> k < j \<and> SSID (a ! k) = SSID (a ! j)"
          then obtain k where k: "k < Suc i" "k < j" "SSID (a ! k) = SSID (a ! j)" by blast
          show "duplicate (a ! j)"
          proof (cases "k = i")
            case True
            then have "k0 < i \<and> k0 < j \<and> SSID (a ! k0) = SSID (a ! j)" using k k0 by simp
            then show ?thesis using 1(4) j by blast
          next
            case False
            then have "k < i" using k by simp
            then show ?thesis using 1(4) j k by blast
          qed
        qed
      qed
      show ?thesis unfolding eq using "1.IH"(1)[OF True dup 1(3) inv 1(5)] .
    next
      case nodup: False
      let ?b = "dedup_inner n (SSID (a ! i)) (Suc i) a"
      have eq: "dedup_outer n i a = dedup_outer n (Suc i) ?b"
        using True nodup by (subst dedup_outer.simps) simp
      have len: "n = length ?b" using 1 by simp
      have bn: "\<And>m. m < n \<Longrightarrow> ?b ! m =
          (if Suc i \<le> m \<and> SSID (a ! m) = SSID (a ! i) then (a ! m)\<lparr>duplicate := True\<rparr> else a ! m)"
        using dedup_inner_nth[OF 1(3)] by simp
      have ss: "\<And>m. m < n \<Longrightarrow> SSID (?b ! m) = SSID (a ! m)" using bn by simp
      have inv: "\<forall>j<n. duplicate (?b ! j) \<longleftrightarrow> (\<exists>k. k < Suc i \<and> k < j \<and> SSID (?b ! k) = SSID (?b ! j))"
      proof (intro allI impI)
        fix j assume j: "j < n"
        have "duplicate (?b ! j) \<longleftrightarrow> duplicate (a ! j) \<or> (i < j \<and> SSID (a ! j) = SSID (a ! i))"
          using bn[OF j] by auto
        also have "\<dots> \<longleftrightarrow> (\<exists>k. k < i \<and> k < j \<and> SSID (a ! k) = SSID (a ! j)) \<or> (i < j \<and> SSID (a ! i) = SSID (a ! j))"
          using 1(4) j by auto
        also have "\<dots> \<longleftrightarrow> (\<exists>k. k < Suc i \<and> k < j \<and> SSID (a ! k) = SSID (a ! j))"
          by (auto simp: less_Suc_eq)
        also have "\<dots> \<longleftrightarrow> (\<exists>k. k < Suc i \<and> k < j \<and> SSID (?b ! k) = SSID (?b ! j))"
          using ss j by auto
        finally show "duplicate (?b ! j) \<longleftrightarrow> (\<exists>k. k < Suc i \<and> k < j \<and> SSID (?b ! k) = SSID (?b ! j))" .
      qed
      have "duplicate (dedup_outer n (Suc i) ?b ! j) \<longleftrightarrow> (\<exists>k<j. SSID (?b ! k) = SSID (?b ! j))"
        using "1.IH"(2)[OF True nodup len inv 1(5)] .
      also have "\<dots> \<longleftrightarrow> (\<exists>k<j. SSID (a ! k) = SSID (a ! j))"
        using ss 1(5) by auto
      finally show ?thesis unfolding eq .
    qed
  next
    case False
    have "dedup_outer n i a = a" using False by (subst dedup_outer.simps) simp
    moreover have "duplicate (a ! j) \<longleftrightarrow> (\<exists>k<j. SSID (a ! k) = SSID (a ! j))"
    proof -
      have "\<And>k. k < j \<Longrightarrow> k < i" using False 1(5) by simp
      then show ?thesis using 1(4,5) by auto
    qed
    ultimately show ?thesis by simp
  qed
qed

lemma networkList_loop_eq:
  "wifiSSIDs st = Some a \<Longrightarrow> wifiSSIDCount st = int (length a) \<Longrightarrow>
   networkList_loop st i pager =
     Some (pager @ concat (map (\<lambda>r. render_item r (getRSSIasQuality (RSSI r)))
                             (filter (listed st) (drop i a))))"
proof (induction st i pager rule: networkList_loop.induct)
  case (1 st i pager)
  show ?case
  proof (cases "i < length a")
    case True
    have d: "drop i a = a ! i # drop (Suc i) a" using True by (simp add: Cons_nth_drop_Suc)
    have c: "int i < wifiSSIDCount st" using True 1(5) by simp
    show ?thesis
    proof (cases "duplicate (a ! i)")
      case dup: True
      have "networkList_loop st i pager = networkList_loop st (Suc i) pager"
        using c True dup 1(4) by (subst networkList_loop.simps) simp
      then show ?thesis
        using "1.IH"(1)[OF c 1(4) True dup 1(4,5)] dup by (simp add: d listed_def)
    next
      case nodup: False
      show ?thesis
      proof (cases "minimumQuality st = 0 \<or> minimumQuality st < getRSSIasQuality (RSSI (a ! i))")
        case q: True
        have "networkList_loop st i pager =
              networkList_loop st (Suc i) (pager @ render_item (a ! i) (getRSSIasQuality (RSSI (a ! i))))"
          using c True nodup q 1(4) by (subst networkList_loop.simps) simp
        then show ?thesis
          using "1.IH"(2)[OF c 1(4) True nodup q 1(4,5)] nodup q by (simp add: d listed_def)
      next
        case q: False
        have "networkList_loop st i pager = networkList_loop st (Suc i) pager"
          using c True nodup q 1(4) by (subst networkList_loop.simps) simp
        then show ?thesis
          using "1.IH"(3)[OF c 1(4) True nodup q 1(4,5)] nodup q by (simp add: d listed_def)
      qed
    qed
  next
    case False
    then have "\<not> int i < wifiSSIDCount st" using 1(5) by simp
    then have "networkList_loop st i pager = Some pager"
      by (subst networkList_loop.simps) simp
    then show ?thesis using False by simp
  qed
qed

lemma networkListAsString_eq:
  "wifiSSIDs st = Some a \<Longrightarrow> wifiSSIDCount st = int (length a) \<Longrightarrow>
   networkListAsString st =
     Some (concat (map (\<lambda>r. render_item r (getRSSIasQuality (RSSI r))) (filter (listed st) a)))"
  by (simp add: networkListAsString_def networkList_loop_eq)

lemma distinct_map_filter_nth:
  "\<forall>i j. i < j \<and> j < length xs \<and> Q (xs ! i) \<and> Q (xs ! j) \<longrightarrow> f (xs ! i) \<noteq> f (xs ! j)
     \<Longrightarrow> distinct (map f (filter Q xs))"
proof (induction xs)
  case Nil
  then show ?case by simp
next
  case (Cons x xs)
  have tl: "\<forall>i j. i < j \<and> j < length xs \<and> Q (xs ! i) \<and> Q (xs ! j) \<longrightarrow> f (xs ! i) \<noteq> f (xs ! j)"
  proof (intro allI impI)
    fix i j assume "i < j \<and> j < length xs \<and> Q (xs ! i) \<and> Q (xs ! j)"
    then have "Suc i < Suc j \<and> Suc j < length (x # xs) \<and> Q ((x # xs) ! Suc i) \<and> Q ((x # xs) ! Suc j)"
      by simp
    then have "f ((x # xs) ! Suc i) \<noteq> f ((x # xs) ! Suc j)" using Cons.prems by blast
    then show "f (xs ! i) \<noteq> f (xs ! j)" by simp
  qed
  have hd: "Q x \<Longrightarrow> f x \<notin> f ` set (filter Q xs)"
  proof
    assume qx: "Q x" and "f x \<in> f ` set (filter Q xs)"
    then obtain y where y: "y \<in> set xs" "Q y" "f y = f x" by auto
    then obtain m where m: "m < length xs" "xs ! m = y" by (auto simp: in_set_conv_nth)
    have "0 < Suc m \<and> Suc m < length (x # xs) \<and> Q ((x # xs) ! 0) \<and> Q ((x # xs) ! Suc m)"
      using qx y m by simp
    then have "f ((x # xs) ! 0) \<noteq> f ((x # xs) ! Suc m)" using Cons.prems by blast
    then show False using y m by simp
  qed
  show ?case using Cons.IH[OF tl] hd by simp
qed

lemma copySSIDInfo_batch:
  assumes "0 < n"
  shows "wifiSSIDs (copySSIDInfo env n st) =
           Some (let a1 = sort_outer (nat n) 0
                            (map (\<lambda>i. (getNetworkInfo env i)\<lparr>duplicate := False\<rparr>) [0..<nat n])
                 in if removeDuplicateAPs st then dedup_outer (nat n) 0 a1 else a1)"
    and "wifiSSIDCount (copySSIDInfo env n st) = n"
    and "minimumQuality (copySSIDInfo env n st) = minimumQuality st"
  using assms by (simp_all add: copySSIDInfo_def Let_def)

lemma sorted_after_sort:
  assumes "n = length a" "k < l" "l < n"
  shows "RSSI (sort_outer n 0 a ! l) \<le> RSSI (sort_outer n 0 a ! k)"
  using sort_outer_sorted[of n a 0 k l] assms by simp

subsection \<open>Scan results that store nothing\<close>

text \<open>
  Claim C7. For a result count that is one of the sentinels \<^verbatim>\<open>WIFI_SCAN_FAILED\<close> and
  \<^verbatim>\<open>WIFI_SCAN_RUNNING\<close>, negative, or zero, \<^verbatim>\<open>copySSIDInfo\<close> leaves the stored array and
  its count as they were; indeed nothing of the manager changes.
\<close>

theorem copySSIDInfo_no_result:
  "n = WIFI_SCAN_FAILED \<or> n = WIFI_SCAN_RUNNING \<or> n < 0 \<or> n = 0 \<Longrightarrow>
   wifiSSIDs (copySSIDInfo env n st) = wifiSSIDs st
   \<and> wifiSSIDCount (copySSIDInfo env n st) = wifiSSIDCount st
   \<and> copySSIDInfo env n st = st"
  by (auto simp: copySSIDInfo_def WIFI_SCAN_FAILED_def WIFI_SCAN_RUNNING_def)

theorem copySSIDInfo_no_result_witness:
  "wifiSSIDs (copySSIDInfo quiet WIFI_SCAN_FAILED fresh_manager) = wifiSSIDs fresh_manager
   \<and> wifiSSIDCount (copySSIDInfo quiet WIFI_SCAN_FAILED fresh_manager) = wifiSSIDCount fresh_manager
   \<and> copySSIDInfo quiet WIFI_SCAN_FAILED fresh_manager = fresh_manager"
proof -
  have h: "WIFI_SCAN_FAILED = WIFI_SCAN_FAILED \<or> WIFI_SCAN_FAILED = WIFI_SCAN_RUNNING
           \<or> WIFI_SCAN_FAILED < 0 \<or> WIFI_SCAN_FAILED = 0"
    by simp
  show ?thesis using copySSIDInfo_no_result [OF h, of quiet fresh_manager] .
qed

subsection \<open>Order of the stored batch\<close>

text \<open>
  Claim C8. After \<^verbatim>\<open>copySSIDInfo\<close> with a positive count, that is after a scan that
  stores at least one observation, the stored array has as many entries as the count
  says and is ordered by non-increasing RSSI: for all indices \<open>i < j\<close> of the array
  the RSSI at \<open>i\<close> is at least the RSSI at \<open>j\<close>.
\<close>

theorem copySSIDInfo_sorted:
  assumes "0 < n"
  shows "\<exists>a. wifiSSIDs (copySSIDInfo env n st) = Some a
           \<and> wifiSSIDCount (copySSIDInfo env n st) = int (length a)
           \<and> 0 < length a
           \<and> (\<forall>i j. i < j \<and> j < length a \<longrightarrow> RSSI (a ! i) \<ge> RSSI (a ! j))"
proof -
  define a0 where "a0 = map (\<lambda>i. (getNetworkInfo env i)\<lparr>duplicate := False\<rparr>) [0..<nat n]"
  define a1 where "a1 = sort_outer (nat n) 0 a0"
  define a2 where "a2 = (if removeDuplicateAPs st then dedup_outer (nat n) 0 a1 else a1)"
  have l0: "nat n = length a0" by (simp add: a0_def)
  have l1: "nat n = length a1" by (simp add: a1_def l0[symmetric])
  have l2: "length a2 = nat n" by (simp add: a2_def l1[symmetric])
  have s1: "\<And>i j. i < j \<Longrightarrow> j < nat n \<Longrightarrow> RSSI (a1 ! j) \<le> RSSI (a1 ! i)"
    unfolding a1_def using sorted_after_sort[OF l0] by blast
  have r2: "\<And>m. m < nat n \<Longrightarrow> RSSI (a2 ! m) = RSSI (a1 ! m)"
    unfolding a2_def using dedup_outer_RSSI[OF l1] by simp
  have "wifiSSIDs (copySSIDInfo env n st) = Some a2"
    using copySSIDInfo_batch(1)[OF assms] by (simp add: a2_def a1_def a0_def Let_def)
  moreover have "wifiSSIDCount (copySSIDInfo env n st) = int (length a2)"
    using copySSIDInfo_batch(2)[OF assms] assms l2 by simp
  moreover have "0 < length a2" using assms l2 by simp
  moreover have "\<forall>i j. i < j \<and> j < length a2 \<longrightarrow> RSSI (a2 ! i) \<ge> RSSI (a2 ! j)"
    using s1 r2 l2 by auto
  ultimately show ?thesis by blast
qed

theorem copySSIDInfo_sorted_witness:
  "(0::int) < 4
   \<and> (\<exists>a. wifiSSIDs (copySSIDInfo quiet 4 fresh_manager) = Some a
           \<and> wifiSSIDCount (copySSIDInfo quiet 4 fresh_manager) = int (length a)
           \<and> 0 < length a
           \<and> (\<forall>i j. i < j \<and> j < length a \<longrightarrow> RSSI (a ! i) \<ge> RSSI (a ! j)))"
proof -
  have h: "(0::int) < 4" by simp
  show ?thesis using h copySSIDInfo_sorted [OF h, of quiet fresh_manager] by blast
qed

subsection \<open>Duplicates\<close>

text \<open>
  Claim C9. With duplicate removal enabled, after \<^verbatim>\<open>copySSIDInfo\<close> with a positive
  count an entry of the stored array is flagged as duplicate exactly when an earlier
  entry has the same SSID. So of the entries with one SSID the first one in the sorted
  array is the only one not flagged. The listing is the concatenation of the rendered
  entries that pass the test of the loop, in the order of the array, and these entries
  have pairwise different SSIDs.
\<close>

theorem copySSIDInfo_duplicates:
  assumes "0 < n" "removeDuplicateAPs st"
  shows "\<exists>a. wifiSSIDs (copySSIDInfo env n st) = Some a
           \<and> (\<forall>j<length a. duplicate (a ! j) \<longleftrightarrow> (\<exists>k<j. SSID (a ! k) = SSID (a ! j)))
           \<and> networkListAsString (copySSIDInfo env n st) =
               Some (concat (map (\<lambda>r. render_item r (getRSSIasQuality (RSSI r)))
                              (filter (listed (copySSIDInfo env n st)) a)))
           \<and> distinct (map SSID (filter (listed (copySSIDInfo env n st)) a))"
proof -
  let ?st' = "copySSIDInfo env n st"
  define a0 where "a0 = map (\<lambda>i. (getNetworkInfo env i)\<lparr>duplicate := False\<rparr>) [0..<nat n]"
  define a1 where "a1 = sort_outer (nat n) 0 a0"
  define a2 where "a2 = dedup_outer (nat n) 0 a1"
  have l0: "nat n = length a0" by (simp add: a0_def)
  have l1: "nat n = length a1" by (simp add: a1_def l0[symmetric])
  have l2: "length a2 = nat n" by (simp add: a2_def l1[symmetric])
  have "set a1 = set a0"
    using sort_outer_mset[OF l0, of 0] unfolding a1_def by (metis set_mset_mset)
  moreover have "\<forall>r\<in>set a0. \<not> duplicate r" by (auto simp: a0_def)
  ultimately have nd: "\<And>j. j < nat n \<Longrightarrow> \<not> duplicate (a1 ! j)"
    using l1 by (metis nth_mem)
  have inv: "\<forall>j<nat n. duplicate (a1 ! j) \<longleftrightarrow> (\<exists>k. k < 0 \<and> k < j \<and> SSID (a1 ! k) = SSID (a1 ! j))"
    using nd by simp
  have d2: "\<And>j. j < nat n \<Longrightarrow> duplicate (a2 ! j) \<longleftrightarrow> (\<exists>k<j. SSID (a1 ! k) = SSID (a1 ! j))"
    unfolding a2_def using dedup_outer_dup[OF l1 inv] by blast
  have s2: "\<And>m. m < nat n \<Longrightarrow> SSID (a2 ! m) = SSID (a1 ! m)"
    unfolding a2_def using dedup_outer_SSID[OF l1] by blast
  have dup: "\<forall>j<length a2. duplicate (a2 ! j) \<longleftrightarrow> (\<exists>k<j. SSID (a2 ! k) = SSID (a2 ! j))"
  proof (intro allI impI)
    fix j assume j: "j < length a2"
    then have "duplicate (a2 ! j) \<longleftrightarrow> (\<exists>k<j. SSID (a1 ! k) = SSID (a1 ! j))"
      using d2 l2 by simp
    also have "\<dots> \<longleftrightarrow> (\<exists>k<j. SSID (a2 ! k) = SSID (a2 ! j))"
      using s2 j l2 by auto
    finally show "duplicate (a2 ! j) \<longleftrightarrow> (\<exists>k<j. SSID (a2 ! k) = SSID (a2 ! j))" .
  qed
  have w: "wifiSSIDs ?st' = Some a2"
    using copySSIDInfo_batch(1)[OF assms(1)] assms(2) by (simp add: a2_def a1_def a0_def Let_def)
  have c: "wifiSSIDCount ?st' = int (length a2)"
    using copySSIDInfo_batch(2)[OF assms(1)] assms(1) l2 by simp
  have "distinct (map SSID (filter (listed ?st') a2))"
  proof (rule distinct_map_filter_nth, intro allI impI)
    fix i j assume h: "i < j \<and> j < length a2 \<and> listed ?st' (a2 ! i) \<and> listed ?st' (a2 ! j)"
    then have "\<not> duplicate (a2 ! j)" by (simp add: listed_def)
    then have "\<not> (\<exists>k<j. SSID (a2 ! k) = SSID (a2 ! j))" using dup h by blast
    then show "SSID (a2 ! i) \<noteq> SSID (a2 ! j)" using h by blast
  qed
  then show ?thesis using w dup networkListAsString_eq[OF w c] by blast
qed

theorem copySSIDInfo_duplicates_witness:
  "(0::int) < 4 \<and> removeDuplicateAPs fresh_manager
   \<and> (\<exists>a. wifiSSIDs (copySSIDInfo quiet 4 fresh_manager) = Some a
           \<and> (\<forall>j<length a. duplicate (a ! j) \<longleftrightarrow> (\<exists>k<j. SSID (a ! k) = SSID (a ! j)))
           \<and> networkListAsString (copySSIDInfo quiet 4 fresh_manager) =
               Some (concat (map (\<lambda>r. render_item r (getRSSIasQuality (RSSI r)))
                              (filter (listed (copySSIDInfo quiet 4 fresh_manager)) a)))
           \<and> distinct (map SSID (filter (listed (copySSIDInfo quiet 4 fresh_manager)) a)))"
proof -
  have h: "(0::int) < 4" by simp
  have r: "removeDuplicateAPs fresh_manager"
    by (simp add: fresh_manager_def AsyncWiFiManager_ctor_def)
  show ?thesis using h r copySSIDInfo_duplicates [OF h r, of quiet] by blast
qed

subsection \<open>The IP-literal test\<close>

text \<open>
  Claim C10. \<^verbatim>\<open>isIp\<close> is true of the empty string, and \<^verbatim>\<open>captivePortal\<close> on a request
  whose \<^verbatim>\<open>Host\<close> header is empty returns false and sends no redirect: the manager, with
  its trace of effects, is unchanged.
\<close>

theorem isIp_empty_host:
  "isIp [] \<and> captivePortal (req\<lparr>host := []\<rparr>) st = (False, st)"
  by (simp add: captivePortal_def)

theorem isIp_empty_host_witness:
  "isIp [] \<and> captivePortal \<lparr>host = [], args = [], localIP = 0x01020304\<rparr> fresh_manager
             = (False, fresh_manager)"
  using isIp_empty_host [of "\<lparr>host = [], args = [], localIP = 0x01020304\<rparr>" fresh_manager]
  by simp

text \<open>
  When \<^verbatim>\<open>handleNotFound\<close> is the caller, it goes on to its own redirect, which it sends
  for every host that \<^verbatim>\<open>captivePortal\<close> let pass.
\<close>

lemma handleNotFound_empty_host:
  "trace (handleNotFound (req\<lparr>host := []\<rparr>) st) =
     trace st @ [HttpSend 302 ''text/plain''
                   [(''Location'', ''http://'' @ toStringIp (localIP req) @ ''/''),
                    (''Cache-Control'', ''no-cache, no-store, must-revalidate''),
                    (''Pragma'', ''no-cache''), (''Expires'', ''-1'')]]"
  by (simp add: handleNotFound_def captivePortal_def emit_def)

subsection \<open>The quality threshold of the listing\<close>

lemma listed_iff:
  "listed st r \<longleftrightarrow>
     \<not> duplicate r \<and> (minimumQuality st = 0 \<or> minimumQuality st < getRSSIasQuality (RSSI r))"
  by (simp add: listed_def)

text \<open>
  Claim C4, at the input where the code departs from it. With the minimum quality set
  to 8, a scan stores one network with RSSI \<open>-96\<close>, whose quality is 8; the entry is not
  a duplicate, and the listing is empty: the test \<^verbatim>\<open>_minimumQuality < quality\<close> is strict,
  so an entry whose quality equals the minimum is left out.
\<close>

theorem listing_omits_quality_8:
  "getRSSIasQuality (- 96) = 8
   \<and> minimumQuality (setMinimumSignalQuality 8 fresh_manager) = 8
   \<and> map_option (map SSID)
        (wifiSSIDs (copySSIDInfo one_weak 1 (setMinimumSignalQuality 8 fresh_manager)))
       = Some [''cafe'']
   \<and> map_option (map RSSI)
        (wifiSSIDs (copySSIDInfo one_weak 1 (setMinimumSignalQuality 8 fresh_manager)))
       = Some [- 96]
   \<and> map_option (map duplicate)
        (wifiSSIDs (copySSIDInfo one_weak 1 (setMinimumSignalQuality 8 fresh_manager)))
       = Some [False]
   \<and> networkListAsString (copySSIDInfo one_weak 1 (setMinimumSignalQuality 8 fresh_manager))
       = Some []"
  by code_simp

subsection \<open>Parameter values\<close>

text \<open>
  \<^verbatim>\<open>toCharArray\<close> with a buffer size \<open>L > 0\<close> leaves the first \<open>L - 1\<close> characters of
  the value in the buffer, as a C string.
\<close>

lemma toCharArray_keeps:
  "CHR 0x00 \<notin> set s \<Longrightarrow> 0 < L \<Longrightarrow>
   map_option c_str (toCharArray s (Some b) L) = Some (take (L - 1) s)"
proof -
  assume nz: "CHR 0x00 \<notin> set s" and L: "0 < L"
  let ?n = "min (L - 1) (length s)"
  have "\<forall>c \<in> set (take ?n s). c \<noteq> CHR 0x00"
    using nz by (metis in_set_takeD)
  then have "takeWhile (\<lambda>c. c \<noteq> CHR 0x00) (take ?n s @ CHR 0x00 # drop (?n + 1) b) = take ?n s"
    by (simp add: takeWhile_append2)
  moreover have "take ?n s = take (L - 1) s" by (simp add: min_def)
  ultimately show ?thesis using L by (simp add: toCharArray_def c_str_def Let_def)
qed

text \<open>
  Claim C5, at the input where the code departs from it. A parameter of declared length
  5 is registered and the save form sends \<open>abcdef\<close> for it: \<^verbatim>\<open>handleWifiSave\<close> calls
  \<^verbatim>\<open>toCharArray(_value, _length)\<close>, which leaves the four characters \<open>abcd\<close> and a
  terminating NUL in the buffer of six bytes; the value read back is \<open>abcd\<close>.
\<close>

theorem handleWifiSave_stores_four:
  "p_length key_param = 5
   \<and> arg save_request ''k'' = ''abcdef''
   \<and> map_option p_value
        (params (handleWifiSave no_parse 150 save_request (addParameter key_param fresh_manager)) 0)
       = Some (Some (''abcd'' @ [CHR 0x00, CHR ''?'']))
   \<and> map_option getValue
        (params (handleWifiSave no_parse 150 save_request (addParameter key_param fresh_manager)) 0)
       = Some (Some ''abcd'')"
  by code_simp

subsection \<open>The parameter registry\<close>

lemma addParameter_changes: "addParameter p st \<noteq> st"
proof
  assume "addParameter p st = st"
  then have "paramsCount (addParameter p st) = paramsCount st" by simp
  then show False by (simp add: addParameter_def)
qed


lemma addParameter_stores:
  "params (addParameter p st) (paramsCount st) = Some p"
  "paramsCount (addParameter p st) = paramsCount st + 1"
  by (simp_all add: addParameter_def)

lemma addParameter_repeated:
  "paramsCount ((addParameter p ^^ k) st) = paramsCount st + k"
  by (induction k) (simp_all add: addParameter_stores)

text \<open>
  Claim C6, at the input where the code departs from it. After ten calls of
  \<^verbatim>\<open>addParameter\<close> the count is \<open>WIFI_MANAGER_MAX_PARAMS\<close>. The eleventh call is not
  rejected: it stores the pointer at index 10, behind the end of the array, and the count
  becomes 11.
\<close>

theorem addParameter_eleventh:
  "paramsCount full_registry = WIFI_MANAGER_MAX_PARAMS
   \<and> paramsCount (addParameter key_param full_registry) = 11
   \<and> params (addParameter key_param full_registry) 10 = Some key_param
   \<and> addParameter key_param full_registry \<noteq> full_registry"
proof -
  have z: "paramsCount fresh_manager = 0"
    by (simp add: fresh_manager_def AsyncWiFiManager_ctor_def)
  have c: "paramsCount full_registry = 10"
    by (simp add: full_registry_def addParameter_repeated z)
  have "params (addParameter key_param full_registry) (paramsCount full_registry) = Some key_param"
    by (rule addParameter_stores)
  then show ?thesis
    using c addParameter_changes[of key_param full_registry]
    by (simp add: addParameter_stores WIFI_MANAGER_MAX_PARAMS_def)
qed

subsection \<open>The portal timeout\<close>

declare save_params.simps [simp del]

lemma emit_timing [simp]:
  "configPortalTimeout (emit e st) = configPortalTimeout st"
  "configPortalStart (emit e st) = configPortalStart st"
  by (simp_all add: emit_def)

lemma save_params_timing:
  "configPortalTimeout (save_params req i st) = configPortalTimeout st
   \<and> configPortalStart (save_params req i st) = configPortalStart st"
proof (induction req i st rule: save_params.induct)
  case (1 req i st)
  show ?case
  proof (cases "i < paramsCount st")
    case True
    show ?thesis
    proof (cases "params st i")
      case None
      then show ?thesis using True by (subst (1 2) save_params.simps) simp
    next
      case (Some p)
      show ?thesis
        using "1.IH"[OF True Some] True Some by (subst (1 2) save_params.simps) simp
    qed
  next
    case False
    then show ?thesis by (subst (1 2) save_params.simps) simp
  qed
qed

lemma handleWifiSave_timing:
  "configPortalTimeout (handleWifiSave f now req st) = configPortalTimeout st
   \<and> configPortalStart (handleWifiSave f now req st) = configPortalStart st"
  by (simp add: handleWifiSave_def Let_def save_params_timing)

lemma handle_requests_timing:
  "configPortalTimeout (handle_requests f env st) = configPortalTimeout st
   \<and> configPortalStart (handle_requests f env st) = configPortalStart st"
proof -
  have "\<And>st. configPortalTimeout (foldl (\<lambda>acc (now, req). handleWifiSave f now req acc) st rs) = configPortalTimeout st
   \<and> configPortalStart (foldl (\<lambda>acc (now, req). handleWifiSave f now req acc) st rs) = configPortalStart st" for rs
    by (induction rs) (auto simp: handleWifiSave_timing)
  then show ?thesis by (simp add: handle_requests_def)
qed

lemma copySSIDInfo_timing:
  "configPortalTimeout (copySSIDInfo env n st) = configPortalTimeout st
   \<and> configPortalStart (copySSIDInfo env n st) = configPortalStart st"
  by (simp add: copySSIDInfo_def Let_def)

lemma scan_timing:
  "configPortalTimeout (scan env async st) = configPortalTimeout st
   \<and> configPortalStart (scan env async st) = configPortalStart st"
  by (simp add: scan_def copySSIDInfo_timing)

lemma ap_step_timing:
  "configPortalTimeout (ap_step env st) = configPortalTimeout st
   \<and> configPortalStart (ap_step env st) = configPortalStart st"
  by (simp add: ap_step_def)

lemma body_head_timing:
  "body_head env (c, st) = Some (c1, st1) \<Longrightarrow>
   configPortalTimeout st1 = configPortalTimeout st \<and> configPortalStart st1 = configPortalStart st"
  by (auto simp: body_head_def scan_step_def scanModal_def Let_def scan_timing ap_step_timing
           split: if_splits option.splits)

lemma connectWifi_timing:
  "connectWifi env s p st = (r, st1) \<Longrightarrow>
   configPortalTimeout st1 = configPortalTimeout st \<and> configPortalStart st1 = configPortalStart st"
  by (auto simp: connectWifi_def Let_def setInfo_def split: if_splits option.splits)

lemma break_after_config_timing:
  "break_after_config st = (out, st1) \<Longrightarrow>
   configPortalTimeout st1 = configPortalTimeout st \<and> configPortalStart st1 = configPortalStart st"
  by (auto simp: break_after_config_def split: if_splits)

lemma connect_step_timing:
  "connect_step env st = (out, st1) \<Longrightarrow>
   configPortalTimeout st1 = configPortalTimeout st \<and> configPortalStart st1 = configPortalStart st"
  by (auto simp: connect_step_def Let_def split: if_splits option.splits prod.splits
           dest!: connectWifi_timing break_after_config_timing)

lemma status_step_timing:
  "status_step env (c, st) = (out, c1, st1) \<Longrightarrow>
   configPortalTimeout st1 = configPortalTimeout st \<and> configPortalStart st1 = configPortalStart st"
  by (auto simp: status_step_def split: if_splits prod.splits dest!: connect_step_timing)

lemma portal_iteration_timing:
  "portal_iteration f env (c, st) = (out, c1, st1) \<Longrightarrow>
   configPortalTimeout st1 = configPortalTimeout st \<and> configPortalStart st1 = configPortalStart st"
  by (auto simp: portal_iteration_def Let_def handle_requests_timing
           split: if_splits option.splits dest!: body_head_timing status_step_timing)

lemma loop_condition_unbounded: "configPortalTimeout st = 0 \<Longrightarrow> loop_condition now st"
  by (simp add: loop_condition_def)

lemma loop_condition_expired:
  "0 < configPortalTimeout st \<Longrightarrow> configPortalTimeout st \<le> now - configPortalStart st
     \<Longrightarrow> \<not> loop_condition now st"
  by (auto simp: loop_condition_def)

lemma connect_step_not_TimedOut: "fst (connect_step env st) \<noteq> Break TimedOut"
  by (auto simp: connect_step_def break_after_config_def Let_def split: prod.splits option.splits)

lemma status_step_not_TimedOut: "fst (status_step env s) \<noteq> Break TimedOut"
proof (cases s)
  case (Pair c st)
  show ?thesis
    using connect_step_not_TimedOut[of env st]
    by (cases "connect_step env st") (simp add: status_step_def Pair)
qed

lemma portal_iteration_TimedOut:
  "fst (portal_iteration f env (c, st)) = Break TimedOut
     \<longleftrightarrow> \<not> loop_condition (t_loop env) (handle_requests f env st)"
  using status_step_not_TimedOut
  by (auto simp: portal_iteration_def Let_def split: option.splits)

lemma portal_iteration_expired:
  "\<not> loop_condition (t_loop env) (handle_requests f env st) \<Longrightarrow>
   portal_iteration f env (c, st) = (Break TimedOut, c, handle_requests f env st)"
  by (simp add: portal_iteration_def Let_def)

lemma run_portal_timing:
  "run_portal f envs (c, st) = (out, c1, st1) \<Longrightarrow>
   configPortalTimeout st1 = configPortalTimeout st \<and> configPortalStart st1 = configPortalStart st"
proof (induction envs arbitrary: c st)
  case Nil
  then show ?case by simp
next
  case (Cons env envs)
  obtain o2 c2 st2 where it: "portal_iteration f env (c, st) = (o2, c2, st2)"
    by (metis prod_cases3)
  have t2: "configPortalTimeout st2 = configPortalTimeout st \<and> configPortalStart st2 = configPortalStart st"
    using portal_iteration_timing[OF it] .
  show ?case
  proof (cases o2)
    case Continue
    then have "run_portal f envs (c2, st2) = (out, c1, st1)" using Cons.prems it by simp
    then show ?thesis using Cons.IH t2 by metis
  next
    case (Break r)
    then show ?thesis using Cons.prems it t2 by simp
  next
    case Blocked
    then show ?thesis using Cons.prems it t2 by simp
  next
    case Fault
    then show ?thesis using Cons.prems it t2 by simp
  qed
qed

lemma run_portal_unbounded:
  "configPortalTimeout st = 0 \<Longrightarrow> fst (run_portal f envs (c, st)) \<noteq> Break TimedOut"
proof (induction envs arbitrary: c st)
  case Nil
  then show ?case by simp
next
  case (Cons env envs)
  obtain o2 c2 st2 where it: "portal_iteration f env (c, st) = (o2, c2, st2)"
    by (metis prod_cases3)
  have z: "configPortalTimeout st2 = 0"
    using portal_iteration_timing[OF it] Cons.prems by simp
  have "loop_condition (t_loop env) (handle_requests f env st)"
    using Cons.prems by (simp add: loop_condition_unbounded handle_requests_timing)
  then have nt: "o2 \<noteq> Break TimedOut"
    using portal_iteration_TimedOut[of f env c st] it by simp
  show ?case
  proof (cases o2)
    case Continue
    then show ?thesis using it Cons.IH[OF z] by simp
  next
    case (Break r)
    then show ?thesis using it nt by simp
  next
    case Blocked
    then show ?thesis using it by simp
  next
    case Fault
    then show ?thesis using it by simp
  qed
qed

lemma run_portal_append:
  "run_portal f envs s = (Continue, s1) \<Longrightarrow> run_portal f (envs @ later) s = run_portal f later s1"
proof (induction envs arbitrary: s)
  case Nil
  then show ?case by simp
next
  case (Cons env envs)
  obtain o2 s2 where it: "portal_iteration f env s = (o2, s2)" by (metis surj_pair)
  show ?case
  proof (cases o2)
    case Continue
    then show ?thesis using Cons it by simp
  next
    case (Break r)
    then show ?thesis using Cons.prems it by simp
  next
    case Blocked
    then show ?thesis using Cons.prems it by simp
  next
    case Fault
    then show ?thesis using Cons.prems it by simp
  qed
qed

lemma portal_start_timing:
  "configPortalTimeout (portal_start penv ap pw st) = configPortalTimeout st"
  "configPortalStart (portal_start penv ap pw st) = t_setup penv"
  by (simp_all add: portal_start_def setupConfigPortal_def Let_def split: option.splits)

lemma setConfigPortalTimeout_zero:
  "configPortalTimeout (setConfigPortalTimeout 0 st) = 0"
  by (simp add: setConfigPortalTimeout_def)

lemma setConfigPortalTimeout_wraps:
  "configPortalTimeout (setConfigPortalTimeout 536870912 st) = 0"
  by (simp add: setConfigPortalTimeout_def)

text \<open>
  Claim C1. With \<^verbatim>\<open>_configPortalTimeout\<close> equal to 0, \<^verbatim>\<open>startConfigPortal\<close> never
  returns by the loop condition, whatever the readings of the passes are. With a timeout
  \<open>T > 0\<close>: when the loop is still running after the passes so far (no pass left it by a
  \<^verbatim>\<open>break\<close>) and at the next evaluation of the loop condition the elapsed time
  \<^verbatim>\<open>millis() - _configPortalStart\<close>, computed in 32 bits, is at least \<open>T\<close>, the loop is
  left by the condition, and the call returns false when the status read after the loop
  is not connected.
\<close>

theorem portal_timeout:
  "(configPortalTimeout st = 0 \<longrightarrow>
      (\<forall>envs r b st'. startConfigPortal f penv envs ap pw st = Some (r, b, st') \<longrightarrow> r \<noteq> TimedOut))
   \<and> (0 < configPortalTimeout st
        \<and> fst (run_portal f envs (False, portal_start penv ap pw st)) = Continue
        \<and> configPortalTimeout st \<le> t_loop env - t_setup penv
        \<and> final_status penv \<noteq> WL_CONNECTED \<longrightarrow>
      (\<exists>st'. startConfigPortal f penv (envs @ env # later) ap pw st = Some (TimedOut, False, st')))"
proof (intro conjI impI allI)
  fix envs r b st'
  assume z: "configPortalTimeout st = 0"
    and ret: "startConfigPortal f penv envs ap pw st = Some (r, b, st')"
  have "fst (run_portal f envs (False, portal_start penv ap pw st)) \<noteq> Break TimedOut"
    using run_portal_unbounded z by (simp add: portal_start_timing)
  then show "r \<noteq> TimedOut"
    using ret by (auto simp: startConfigPortal_def split: prod.splits outcome.splits)
next
  assume h: "0 < configPortalTimeout st
        \<and> fst (run_portal f envs (False, portal_start penv ap pw st)) = Continue
        \<and> configPortalTimeout st \<le> t_loop env - t_setup penv
        \<and> final_status penv \<noteq> WL_CONNECTED"
  obtain c1 st1 where run: "run_portal f envs (False, portal_start penv ap pw st) = (Continue, c1, st1)"
    using h by (metis fst_conv prod_cases3)
  have t1: "configPortalTimeout st1 = configPortalTimeout st" "configPortalStart st1 = t_setup penv"
    using run_portal_timing[OF run] by (simp_all add: portal_start_timing)
  let ?st2 = "handle_requests f env st1"
  have "\<not> loop_condition (t_loop env) ?st2"
    using h t1 by (intro loop_condition_expired) (simp_all add: handle_requests_timing)
  then have it: "portal_iteration f env (c1, st1) = (Break TimedOut, c1, ?st2)"
    by (rule portal_iteration_expired)
  have "run_portal f (envs @ env # later) (False, portal_start penv ap pw st)
          = run_portal f (env # later) (c1, st1)"
    using run_portal_append[OF run] .
  also have "\<dots> = (Break TimedOut, c1, ?st2)" using it by simp
  finally show "\<exists>st'. startConfigPortal f penv (envs @ env # later) ap pw st = Some (TimedOut, False, st')"
    using h by (simp add: startConfigPortal_def)
qed

theorem portal_timeout_witness:
  "configPortalTimeout fresh_manager = 0
   \<and> (\<exists>r b st'. startConfigPortal no_parse at_start [joined] ''ap'' None fresh_manager
                     = Some (r, b, st') \<and> r \<noteq> TimedOut)
   \<and> 0 < configPortalTimeout bounded
   \<and> fst (run_portal no_parse [quiet] (False, portal_start at_start ''ap'' None bounded)) = Continue
   \<and> configPortalTimeout bounded \<le> t_loop late - t_setup at_start
   \<and> final_status at_start \<noteq> WL_CONNECTED
   \<and> (\<exists>st'. startConfigPortal no_parse at_start ([quiet] @ late # []) ''ap'' None bounded
               = Some (TimedOut, False, st'))"
proof -
  have a: "configPortalTimeout fresh_manager = 0" by code_simp
  have "case startConfigPortal no_parse at_start [joined] ''ap'' None fresh_manager of
          None \<Rightarrow> False | Some x \<Rightarrow> True"
    by code_simp
  then obtain r b st' where
    ret: "startConfigPortal no_parse at_start [joined] ''ap'' None fresh_manager = Some (r, b, st')"
    by (auto split: option.splits)
  have nt: "r \<noteq> TimedOut"
    using a ret portal_timeout [of fresh_manager no_parse at_start "''ap''" None "[]" quiet "[]"]
    by blast
  have b: "0 < configPortalTimeout bounded
        \<and> fst (run_portal no_parse [quiet] (False, portal_start at_start ''ap'' None bounded)) = Continue
        \<and> configPortalTimeout bounded \<le> t_loop late - t_setup at_start
        \<and> final_status at_start \<noteq> WL_CONNECTED"
    by code_simp
  have "\<exists>st'. startConfigPortal no_parse at_start ([quiet] @ late # []) ''ap'' None bounded
               = Some (TimedOut, False, st')"
    using b portal_timeout [of bounded no_parse at_start "''ap''" None "[quiet]" late "[]"]
    by blast
  then show ?thesis using a ret nt b by blast
qed

subsection \<open>The scan block of the loop\<close>

lemma networkList_loop_total:
  "batch_wf st \<Longrightarrow> \<exists>p. networkList_loop st i pager = Some p"
proof (induction st i pager rule: networkList_loop.induct)
  case (1 st i pager)
  show ?case
  proof (cases "int i < wifiSSIDCount st")
    case c: True
    then obtain a where a: "wifiSSIDs st = Some a" "i < length a"
      using 1(4) by (auto simp: batch_wf_def split: option.splits)
    show ?thesis
    proof (cases "duplicate (a ! i)")
      case dup: True
      have "networkList_loop st i pager = networkList_loop st (Suc i) pager"
        using c a dup by (subst networkList_loop.simps) simp
      then show ?thesis using "1.IH"(1)[OF c a dup 1(4)] by simp
    next
      case nodup: False
      show ?thesis
      proof (cases "minimumQuality st = 0 \<or> minimumQuality st < getRSSIasQuality (RSSI (a ! i))")
        case q: True
        have "networkList_loop st i pager =
              networkList_loop st (Suc i) (pager @ render_item (a ! i) (getRSSIasQuality (RSSI (a ! i))))"
          using c a nodup q by (subst networkList_loop.simps) simp
        then show ?thesis using "1.IH"(2)[OF c a nodup q 1(4)] by simp
      next
        case q: False
        have "networkList_loop st i pager = networkList_loop st (Suc i) pager"
          using c a nodup q by (subst networkList_loop.simps) simp
        then show ?thesis using "1.IH"(3)[OF c a nodup q 1(4)] by simp
      qed
    qed
  next
    case False
    then have "networkList_loop st i pager = Some pager"
      by (subst networkList_loop.simps) simp
    then show ?thesis by simp
  qed
qed

lemma copySSIDInfo_wf: "batch_wf st \<Longrightarrow> batch_wf (copySSIDInfo env n st)"
proof (cases "0 < n")
  case True
  have "wifiSSIDCount (copySSIDInfo env n st) = n"
    using copySSIDInfo_batch(2)[OF True] .
  moreover have "\<exists>a. wifiSSIDs (copySSIDInfo env n st) = Some a \<and> length a = nat n"
    using copySSIDInfo_batch(1)[OF True, of env st] by (simp add: Let_def)
  ultimately show ?thesis using True by (auto simp: batch_wf_def)
next
  case False
  assume "batch_wf st"
  then show ?thesis using False by (simp add: copySSIDInfo_def)
qed

lemma batch_wf_emit [simp]: "batch_wf (emit e st) = batch_wf st"
  by (simp add: batch_wf_def emit_def split: option.splits)

lemma batch_wf_try_scan [simp]: "batch_wf (st\<lparr>try_scan := b\<rparr>) = batch_wf st"
  by (simp add: batch_wf_def split: option.splits)

lemma scan_wf: "batch_wf st \<Longrightarrow> batch_wf (scan env async st)"
  by (simp add: scan_def copySSIDInfo_wf)

lemma copySSIDInfo_emit:
  "wifiSSIDs (copySSIDInfo env n (emit e st)) = wifiSSIDs (copySSIDInfo env n st)"
  "wifiSSIDCount (copySSIDInfo env n (emit e st)) = wifiSSIDCount (copySSIDInfo env n st)"
  "trace (copySSIDInfo env n (emit e st)) = trace st @ [e]"
  by (simp_all add: copySSIDInfo_def emit_def Let_def)

lemma copySSIDInfo_trace: "trace (copySSIDInfo env n st) = trace st"
  by (simp add: copySSIDInfo_def Let_def)

text \<open>
  The listing reads inside the stored array exactly when the array is long enough for the
  count.
\<close>

lemma networkList_loop_fault:
  assumes "wifiSSIDs st = Some a" "int (length a) < wifiSSIDCount st" "i \<le> length a"
  shows "networkList_loop st i pager = None"
  using assms
proof (induction st i pager rule: networkList_loop.induct)
  case (1 st i pager)
  have c: "int i < wifiSSIDCount st" using 1(5,6) by simp
  show ?case
  proof (cases "i < length a")
    case False
    then show ?thesis using c 1(4) by (subst networkList_loop.simps) simp
  next
    case True
    then have s: "Suc i \<le> length a" by simp
    show ?thesis
    proof (cases "duplicate (a ! i)")
      case dup: True
      have "networkList_loop st i pager = networkList_loop st (Suc i) pager"
        using c True dup 1(4) by (subst networkList_loop.simps) simp
      then show ?thesis using "1.IH"(1)[OF c 1(4) True dup 1(4,5) s] by simp
    next
      case nodup: False
      show ?thesis
      proof (cases "minimumQuality st = 0 \<or> minimumQuality st < getRSSIasQuality (RSSI (a ! i))")
        case q: True
        have "networkList_loop st i pager =
              networkList_loop st (Suc i) (pager @ render_item (a ! i) (getRSSIasQuality (RSSI (a ! i))))"
          using c True nodup q 1(4) by (subst networkList_loop.simps) simp
        then show ?thesis using "1.IH"(2)[OF c 1(4) True nodup q 1(4,5) s] by simp
      next
        case q: False
        have "networkList_loop st i pager = networkList_loop st (Suc i) pager"
          using c True nodup q 1(4) by (subst networkList_loop.simps) simp
        then show ?thesis using "1.IH"(3)[OF c 1(4) True nodup q 1(4,5) s] by simp
      qed
    qed
  qed
qed

lemma networkListAsString_fault: "\<not> batch_wf st \<Longrightarrow> networkListAsString st = None"
proof (cases "wifiSSIDs st")
  case None
  assume "\<not> batch_wf st"
  then have "int 0 < wifiSSIDCount st" using None by (simp add: batch_wf_def)
  then show ?thesis using None
    unfolding networkListAsString_def by (subst networkList_loop.simps) simp
next
  case (Some a)
  assume "\<not> batch_wf st"
  then have "int (length a) < wifiSSIDCount st" using Some by (simp add: batch_wf_def)
  then show ?thesis
    unfolding networkListAsString_def using networkList_loop_fault[OF Some, of 0] by simp
qed

lemma networkListAsString_defined: "batch_wf st \<longleftrightarrow> networkListAsString st \<noteq> None"
proof
  assume "batch_wf st"
  then show "networkListAsString st \<noteq> None"
    using networkList_loop_total[of st 0 "[]"] by (auto simp: networkListAsString_def)
next
  assume "networkListAsString st \<noteq> None"
  then show "batch_wf st" by (rule contrapos_np) (rule networkListAsString_fault)
qed

text \<open>
  With \<^verbatim>\<open>shouldscan\<close> cleared nothing in the loop starts a scan or touches the stored
  array: each function the loop calls, the handler of the save form included, keeps
  the flag, the array, its count and the number of scans started.
\<close>

lemma emit_view:
  "e \<noteq> WiFiScanNetworks False \<Longrightarrow> scan_view (emit e st) = scan_view st"
  by (simp add: emit_def)

lemma save_params_view: "scan_view (save_params req i st) = scan_view st"
proof (induction req i st rule: save_params.induct)
  case (1 req i st)
  show ?case
  proof (cases "i < paramsCount st")
    case True
    show ?thesis
    proof (cases "params st i")
      case None
      then have "save_params req i st = st" using True by (subst save_params.simps) simp
      then show ?thesis by simp
    next
      case (Some p)
      have "save_params req i st =
          save_params req (Suc i)
               (st\<lparr>params := (params st)
                  (i \<mapsto> p\<lparr>p_value :=
                       toCharArray (c_str (arg req (case p_id p of None \<Rightarrow> [] | Some n \<Rightarrow> n)))
                         (p_value p) (p_length p)\<rparr>)\<rparr>)"
        using True Some by (subst save_params.simps) simp
      then show ?thesis using "1.IH"[OF True Some] by simp
    qed
  next
    case False
    then have "save_params req i st = st" by (subst save_params.simps) simp
    then show ?thesis by simp
  qed
qed

lemma handleWifiSave_view: "scan_view (handleWifiSave f now req st) = scan_view st"
  using save_params_view
  by (simp add: handleWifiSave_def Let_def emit_def)

lemma handle_requests_view: "scan_view (handle_requests f env st) = scan_view st"
proof -
  have "scan_view (foldl (\<lambda>acc (now, req). handleWifiSave f now req acc) st rs) = scan_view st"
    for rs st
  proof (induction rs arbitrary: st)
    case Nil
    then show ?case by simp
  next
    case (Cons r rs)
    obtain now req where r: "r = (now, req)" by (cases r)
    show ?case using Cons.IH[of "handleWifiSave f now req st"] handleWifiSave_view[of f now req st]
      by (simp add: r)
  qed
  then show ?thesis by (simp add: handle_requests_def)
qed

lemma ap_step_view: "scan_view (ap_step env st) = scan_view st"
  by (simp add: ap_step_def emit_def)

lemma scan_off: "\<not> shouldscan st \<Longrightarrow> scan env async st = st"
  by (simp add: scan_def)

lemma scan_step_view:
  assumes "\<not> shouldscan st" "scan_step env (c, st) = Some (c1, st1)"
  shows "scan_view st1 = scan_view st"
proof (cases "scan_due env st")
  case False
  then show ?thesis using assms(2) by (simp add: scan_step_def)
next
  case True
  have off: "scan env False (emit (WiFiDisconnect False) st) = emit (WiFiDisconnect False) st"
    using assms(1) by (simp add: scan_off emit_def)
  show ?thesis
    using assms(2) True off
    by (auto simp: scan_step_def scanModal_def Let_def emit_def split: option.splits if_splits)
qed

lemma body_head_view:
  assumes "\<not> shouldscan st" "body_head env (c, st) = Some (c1, st1)"
  shows "scan_view st1 = scan_view st"
proof -
  let ?st0 = "emit DnsProcessNextRequest (emit WdtReset (ap_step env st))"
  have v0: "scan_view ?st0 = scan_view st"
    using ap_step_view[of env st] by (simp add: emit_def)
  then have "\<not> shouldscan ?st0" using assms(1) by simp
  then have "scan_view st1 = scan_view ?st0"
    using scan_step_view assms(2) unfolding body_head_def by simp
  then show ?thesis using v0 by simp
qed

lemma poll_calls_no_scan: "count_list (poll_calls start tmo rs) (WiFiScanNetworks False) = 0"
  by (induction start tmo rs rule: poll_calls.induct) simp_all

lemma connectWifi_view: "scan_view (snd (connectWifi env s p st)) = scan_view st"
  by (simp add: connectWifi_def Let_def emit_def setInfo_def waitForConnectResult_calls_def
        poll_calls_no_scan split: option.splits)

lemma break_after_config_view: "scan_view (snd (break_after_config st)) = scan_view st"
  by (simp add: break_after_config_def emit_def)

lemma connect_step_view: "scan_view (snd (connect_step env st)) = scan_view st"
proof (cases "connect st")
  case False
  then show ?thesis by (simp add: connect_step_def emit_def)
next
  case True
  let ?st1 = "emit (WiFiPersistent True) (emit (Delay 2000) (st\<lparr>connect := False\<rparr>))"
  have v1: "scan_view ?st1 = scan_view st" by (simp add: emit_def)
  show ?thesis
  proof (cases "tryConnectDuringConfigPortal st")
    case False
    then have "connect_step env st = break_after_config ?st1"
      using True by (simp add: connect_step_def Let_def emit_def)
    then show ?thesis using break_after_config_view[of ?st1] v1 by simp
  next
    case t: True
    obtain r st2 where cw: "connectWifi env (ssid ?st1) (pass ?st1) ?st1 = (r, st2)"
      by (metis surj_pair)
    have v2: "scan_view st2 = scan_view st"
      using connectWifi_view[of env "ssid ?st1" "pass ?st1" ?st1] cw v1 by simp
    have cs: "connect_step env st =
      (case r of None \<Rightarrow> (Blocked, st2)
       | Some connRes \<Rightarrow>
           if connRes = WL_CONNECTED
           then (Break SaveConnected,
                 (let st3 = emit (WiFiPersistent False) st2
                  in if savecallback st3 then emit SaveCallback st3 else st3))
           else break_after_config (st2\<lparr>time_now := t_fail env\<rparr>))"
      using True t cw by (simp add: connect_step_def Let_def emit_def)
    show ?thesis
    proof (cases r)
      case None
      then show ?thesis using cs v2 by simp
    next
      case (Some connRes)
      show ?thesis
      proof (cases "connRes = WL_CONNECTED")
        case True
        then show ?thesis using cs Some v2 by (simp add: Let_def emit_def)
      next
        case False
        then have "connect_step env st = break_after_config (st2\<lparr>time_now := t_fail env\<rparr>)"
          using cs Some by simp
        then show ?thesis
          using break_after_config_view[of "st2\<lparr>time_now := t_fail env\<rparr>"] v2 by simp
      qed
    qed
  qed
qed

lemma status_step_view:
  "status_step env (c, st) = (out, c1, st1) \<Longrightarrow> scan_view st1 = scan_view st"
  using connect_step_view[of env st]
  by (cases "connect_step env st") (auto simp: status_step_def emit_def split: if_splits)

lemma portal_iteration_view:
  assumes "\<not> shouldscan st" "portal_iteration f env (c, st) = (out, c1, st1)"
  shows "scan_view st1 = scan_view st"
proof -
  let ?st0 = "handle_requests f env st"
  have v0: "scan_view ?st0 = scan_view st" by (rule handle_requests_view)
  then have n0: "\<not> shouldscan ?st0" using assms(1) by simp
  show ?thesis
  proof (cases "loop_condition (t_loop env) ?st0")
    case False
    then have "st1 = ?st0" using assms(2) by (simp add: portal_iteration_def Let_def)
    then show ?thesis using v0 by simp
  next
    case True
    show ?thesis
    proof (cases "body_head env (c, ?st0)")
      case None
      then have "st1 = ?st0" using assms(2) True by (simp add: portal_iteration_def Let_def)
      then show ?thesis using v0 by simp
    next
      case (Some s1)
      obtain c2 st2 where s1: "s1 = (c2, st2)" by (cases s1)
      have v2: "scan_view st2 = scan_view ?st0"
        using body_head_view[OF n0] Some s1 by simp
      have "status_step env (c2, st2) = (out, c1, st1)"
        using assms(2) True Some s1 by (simp add: portal_iteration_def Let_def)
      then have "scan_view st1 = scan_view st2" by (rule status_step_view)
      then show ?thesis using v2 v0 by simp
    qed
  qed
qed

lemma run_portal_view:
  "\<not> shouldscan st \<Longrightarrow> run_portal f envs (c, st) = (out, c1, st1)
     \<Longrightarrow> scan_view st1 = scan_view st"
proof (induction envs arbitrary: c st)
  case Nil
  then show ?case by simp
next
  case (Cons env envs)
  obtain o2 c2 st2 where it: "portal_iteration f env (c, st) = (o2, c2, st2)"
    by (metis prod_cases3)
  have v2: "scan_view st2 = scan_view st"
    using portal_iteration_view[OF Cons.prems(1) it] .
  then have n2: "\<not> shouldscan st2" using Cons.prems(1) by simp
  show ?case
  proof (cases o2)
    case Continue
    then have "run_portal f envs (c2, st2) = (out, c1, st1)" using Cons.prems(2) it by simp
    then have "scan_view st1 = scan_view st2" using Cons.IH[OF n2] by simp
    then show ?thesis using v2 by simp
  next
    case (Break r)
    then show ?thesis using Cons.prems(2) it v2 by simp
  next
    case Blocked
    then show ?thesis using Cons.prems(2) it v2 by simp
  next
    case Fault
    then show ?thesis using Cons.prems(2) it v2 by simp
  qed
qed

lemma copySSIDInfo_emit_shouldscan:
  "shouldscan (copySSIDInfo env n (emit e st)) = shouldscan (copySSIDInfo env n st)"
  by (simp add: copySSIDInfo_def emit_def Let_def)

lemma copySSIDInfo_shouldscan: "0 < n \<Longrightarrow> \<not> shouldscan (copySSIDInfo env n st)"
  by (simp add: copySSIDInfo_def Let_def)

lemma scan_wf_iff:
  "batch_wf (scan env False (emit (WiFiDisconnect False) st)) \<longleftrightarrow>
     batch_wf st \<or> (shouldscan st \<and> wifiSSIDscan st \<and> try_scan st \<and> 0 < scanNetworks_result env)"
proof (cases "shouldscan st \<and> wifiSSIDscan st \<and> try_scan st")
  case False
  then have "scan env False (emit (WiFiDisconnect False) st) = emit (WiFiDisconnect False) st"
    by (auto simp: scan_def emit_def)
  then show ?thesis using False by auto
next
  case True
  let ?st0 = "emit (WiFiScanNetworks False) (emit (WiFiDisconnect False) st)"
  have s: "scan env False (emit (WiFiDisconnect False) st) =
             (copySSIDInfo env (scanNetworks_result env) ?st0)\<lparr>try_scan := False\<rparr>"
    using True by (simp add: scan_def emit_def)
  show ?thesis
  proof (cases "0 < scanNetworks_result env")
    case pos: True
    have "wifiSSIDCount (copySSIDInfo env (scanNetworks_result env) ?st0) = scanNetworks_result env"
      using copySSIDInfo_batch(2)[OF pos] .
    moreover have "\<exists>a. wifiSSIDs (copySSIDInfo env (scanNetworks_result env) ?st0) = Some a
                        \<and> length a = nat (scanNetworks_result env)"
      using copySSIDInfo_batch(1)[OF pos, of env ?st0] by (simp add: Let_def)
    ultimately have "batch_wf (copySSIDInfo env (scanNetworks_result env) ?st0)"
      using pos by (auto simp: batch_wf_def)
    then show ?thesis using s pos True by simp
  next
    case npos: False
    then have "copySSIDInfo env (scanNetworks_result env) ?st0 = ?st0"
      by (simp add: copySSIDInfo_def)
    then show ?thesis using s npos by simp
  qed
qed

text \<open>
  Claim C3, as amended. Take a pass in which the scan is due (\<^verbatim>\<open>scannow\<close> is 0, as on
  the first pass, or the interval has elapsed), and in which the listing that
  \<^verbatim>\<open>scanModal\<close> builds reads inside the stored array: the array is long enough for its
  count, or the scan of this pass stores networks. The scan block then disconnects the
  station first and stamps \<^verbatim>\<open>scannow\<close> last. When \<^verbatim>\<open>shouldscan\<close>, \<^verbatim>\<open>wifiSSIDscan\<close> and the
  static flag \<^verbatim>\<open>try_scan\<close> all hold, one radio scan is started and its result count goes
  to \<^verbatim>\<open>copySSIDInfo\<close>, which stores the batch and clears \<^verbatim>\<open>shouldscan\<close> when the count is
  positive. When \<^verbatim>\<open>shouldscan\<close> is cleared, no scan is started and the stored array and
  its count stay as they were. (In a pass in which the scan is due and the listing would
  read behind the array, which the source leaves undefined, the model stops.) And once
  \<^verbatim>\<open>shouldscan\<close> is cleared, that is once a scan has stored a batch, it stays so over any
  number of further passes of the loop, however each of them ends: no scan is started
  again and the stored array and its count stay as they were.
\<close>

theorem scan_block:
  "(scan_due env st
     \<and> (batch_wf st
         \<or> (shouldscan st \<and> wifiSSIDscan st \<and> try_scan st \<and> 0 < scanNetworks_result env)) \<longrightarrow>
      (\<exists>c1 st1. scan_step env (c, st) = Some (c1, st1)
         \<and> scannow st1 = t_scanstamp env
         \<and> (\<exists>rest. trace st1 = trace st @ WiFiDisconnect False # rest)
         \<and> (shouldscan st \<and> wifiSSIDscan st \<and> try_scan st \<longrightarrow>
               count_list (trace st1) (WiFiScanNetworks False)
                 = count_list (trace st) (WiFiScanNetworks False) + 1
               \<and> wifiSSIDs st1 = wifiSSIDs (copySSIDInfo env (scanNetworks_result env) st)
               \<and> wifiSSIDCount st1 = wifiSSIDCount (copySSIDInfo env (scanNetworks_result env) st)
               \<and> (0 < scanNetworks_result env \<longrightarrow> \<not> shouldscan st1))
         \<and> (\<not> shouldscan st \<longrightarrow>
               \<not> shouldscan st1
               \<and> count_list (trace st1) (WiFiScanNetworks False)
                   = count_list (trace st) (WiFiScanNetworks False)
               \<and> wifiSSIDs st1 = wifiSSIDs st
               \<and> wifiSSIDCount st1 = wifiSSIDCount st)))
   \<and> (scan_due env st \<and> \<not> batch_wf st
        \<and> \<not> (shouldscan st \<and> wifiSSIDscan st \<and> try_scan st \<and> 0 < scanNetworks_result env) \<longrightarrow>
      scan_step env (c, st) = None)
   \<and> (\<not> shouldscan st \<and> run_portal f envs (c, st) = (out, c2, st2) \<longrightarrow>
        \<not> shouldscan st2
        \<and> count_list (trace st2) (WiFiScanNetworks False)
            = count_list (trace st) (WiFiScanNetworks False)
        \<and> wifiSSIDs st2 = wifiSSIDs st
        \<and> wifiSSIDCount st2 = wifiSSIDCount st)"
proof (intro conjI impI)
  let ?st0 = "emit (WiFiDisconnect False) st"
  let ?st1 = "scan env False ?st0"
  assume h: "scan_due env st
     \<and> (batch_wf st
         \<or> (shouldscan st \<and> wifiSSIDscan st \<and> try_scan st \<and> 0 < scanNetworks_result env))"
  then have "batch_wf ?st1" using scan_wf_iff by blast
  then obtain p where p: "networkListAsString ?st1 = Some p"
    using networkListAsString_defined[of ?st1] by auto
  define st2 where "st2 = (if tryConnectDuringConfigPortal ?st1
      then (emit WiFiBegin ?st1)\<lparr>scannow := t_scanstamp env\<rparr>
      else ?st1\<lparr>scannow := t_scanstamp env\<rparr>)"
  define c2 where "c2 = (if tryConnectDuringConfigPortal ?st1 then True else c)"
  have step: "scan_step env (c, st) = Some (c2, st2)"
    using h p by (simp add: scan_step_def scanModal_def Let_def st2_def c2_def)
  have sn: "scannow st2 = t_scanstamp env" by (simp add: st2_def emit_def)
  have f2: "shouldscan st2 = shouldscan ?st1" "wifiSSIDs st2 = wifiSSIDs ?st1"
      "wifiSSIDCount st2 = wifiSSIDCount ?st1"
      "trace st2 = trace ?st1 @ (if tryConnectDuringConfigPortal ?st1 then [WiFiBegin] else [])"
    by (simp_all add: st2_def emit_def)
  have gates: "shouldscan st \<and> wifiSSIDscan st \<and> try_scan st \<longrightarrow>
               (\<exists>rest. trace st2 = trace st @ WiFiDisconnect False # rest)
               \<and> count_list (trace st2) (WiFiScanNetworks False)
                 = count_list (trace st) (WiFiScanNetworks False) + 1
               \<and> wifiSSIDs st2 = wifiSSIDs (copySSIDInfo env (scanNetworks_result env) st)
               \<and> wifiSSIDCount st2 = wifiSSIDCount (copySSIDInfo env (scanNetworks_result env) st)
               \<and> (0 < scanNetworks_result env \<longrightarrow> \<not> shouldscan st2)"
  proof
    assume g: "shouldscan st \<and> wifiSSIDscan st \<and> try_scan st"
    then have s1: "?st1 = (copySSIDInfo env (scanNetworks_result env)
                            (emit (WiFiScanNetworks False) ?st0))\<lparr>try_scan := False\<rparr>"
      by (simp add: scan_def emit_def)
    have t1: "trace ?st1 = trace st @ [WiFiDisconnect False, WiFiScanNetworks False]"
      unfolding s1 by (simp add: copySSIDInfo_trace emit_def)
    have b1: "wifiSSIDs ?st1 = wifiSSIDs (copySSIDInfo env (scanNetworks_result env) st)"
         "wifiSSIDCount ?st1 = wifiSSIDCount (copySSIDInfo env (scanNetworks_result env) st)"
         "shouldscan ?st1 = shouldscan (copySSIDInfo env (scanNetworks_result env) st)"
      unfolding s1 by (simp_all add: copySSIDInfo_emit copySSIDInfo_emit_shouldscan)
    have "trace st2 = trace st @ WiFiDisconnect False
            # (WiFiScanNetworks False # (if tryConnectDuringConfigPortal ?st1 then [WiFiBegin] else []))"
      using f2(4) t1 by simp
    then have "\<exists>rest. trace st2 = trace st @ WiFiDisconnect False # rest" by blast
    moreover have "count_list (trace st2) (WiFiScanNetworks False)
                 = count_list (trace st) (WiFiScanNetworks False) + 1"
      using f2(4) t1 by simp
    ultimately show "(\<exists>rest. trace st2 = trace st @ WiFiDisconnect False # rest)
               \<and> count_list (trace st2) (WiFiScanNetworks False)
                 = count_list (trace st) (WiFiScanNetworks False) + 1
               \<and> wifiSSIDs st2 = wifiSSIDs (copySSIDInfo env (scanNetworks_result env) st)
               \<and> wifiSSIDCount st2 = wifiSSIDCount (copySSIDInfo env (scanNetworks_result env) st)
               \<and> (0 < scanNetworks_result env \<longrightarrow> \<not> shouldscan st2)"
      using f2 b1 copySSIDInfo_shouldscan[of "scanNetworks_result env" env st] by simp
  qed
  have nogates: "\<not> (shouldscan st \<and> wifiSSIDscan st \<and> try_scan st) \<longrightarrow>
                 trace st2 = trace st @ WiFiDisconnect False
                    # (if tryConnectDuringConfigPortal ?st1 then [WiFiBegin] else [])
                 \<and> shouldscan st2 = shouldscan st \<and> wifiSSIDs st2 = wifiSSIDs st
                 \<and> wifiSSIDCount st2 = wifiSSIDCount st"
  proof
    assume g: "\<not> (shouldscan st \<and> wifiSSIDscan st \<and> try_scan st)"
    then have s1: "?st1 = ?st0" by (auto simp: scan_def emit_def)
    have "trace ?st1 = trace st @ [WiFiDisconnect False]" "shouldscan ?st1 = shouldscan st"
        "wifiSSIDs ?st1 = wifiSSIDs st" "wifiSSIDCount ?st1 = wifiSSIDCount st"
      unfolding s1 by (simp_all add: emit_def)
    then show "trace st2 = trace st @ WiFiDisconnect False
                    # (if tryConnectDuringConfigPortal ?st1 then [WiFiBegin] else [])
                 \<and> shouldscan st2 = shouldscan st \<and> wifiSSIDs st2 = wifiSSIDs st
                 \<and> wifiSSIDCount st2 = wifiSSIDCount st"
      using f2 by simp
  qed
  have first: "\<exists>rest. trace st2 = trace st @ WiFiDisconnect False # rest"
    using gates nogates by blast
  have off: "\<not> shouldscan st \<longrightarrow>
               \<not> shouldscan st2
               \<and> count_list (trace st2) (WiFiScanNetworks False)
                   = count_list (trace st) (WiFiScanNetworks False)
               \<and> wifiSSIDs st2 = wifiSSIDs st
               \<and> wifiSSIDCount st2 = wifiSSIDCount st"
    using nogates by auto
  have on: "shouldscan st \<and> wifiSSIDscan st \<and> try_scan st \<longrightarrow>
               count_list (trace st2) (WiFiScanNetworks False)
                 = count_list (trace st) (WiFiScanNetworks False) + 1
               \<and> wifiSSIDs st2 = wifiSSIDs (copySSIDInfo env (scanNetworks_result env) st)
               \<and> wifiSSIDCount st2 = wifiSSIDCount (copySSIDInfo env (scanNetworks_result env) st)
               \<and> (0 < scanNetworks_result env \<longrightarrow> \<not> shouldscan st2)"
    using gates by blast
  show "\<exists>c1 st1. scan_step env (c, st) = Some (c1, st1)
         \<and> scannow st1 = t_scanstamp env
         \<and> (\<exists>rest. trace st1 = trace st @ WiFiDisconnect False # rest)
         \<and> (shouldscan st \<and> wifiSSIDscan st \<and> try_scan st \<longrightarrow>
               count_list (trace st1) (WiFiScanNetworks False)
                 = count_list (trace st) (WiFiScanNetworks False) + 1
               \<and> wifiSSIDs st1 = wifiSSIDs (copySSIDInfo env (scanNetworks_result env) st)
               \<and> wifiSSIDCount st1 = wifiSSIDCount (copySSIDInfo env (scanNetworks_result env) st)
               \<and> (0 < scanNetworks_result env \<longrightarrow> \<not> shouldscan st1))
         \<and> (\<not> shouldscan st \<longrightarrow>
               \<not> shouldscan st1
               \<and> count_list (trace st1) (WiFiScanNetworks False)
                   = count_list (trace st) (WiFiScanNetworks False)
               \<and> wifiSSIDs st1 = wifiSSIDs st
               \<and> wifiSSIDCount st1 = wifiSSIDCount st)"
    by (intro exI[of _ c2] exI[of _ st2] conjI step sn first on off)
next
  assume h: "scan_due env st \<and> \<not> batch_wf st
        \<and> \<not> (shouldscan st \<and> wifiSSIDscan st \<and> try_scan st \<and> 0 < scanNetworks_result env)"
  then have "\<not> batch_wf (scan env False (emit (WiFiDisconnect False) st))"
    using scan_wf_iff by blast
  then have "networkListAsString (scan env False (emit (WiFiDisconnect False) st)) = None"
    by (rule networkListAsString_fault)
  then show "scan_step env (c, st) = None"
    using h by (simp add: scan_step_def scanModal_def Let_def)
next
  assume h: "\<not> shouldscan st \<and> run_portal f envs (c, st) = (out, c2, st2)"
  then have v: "scan_view st2 = scan_view st" using run_portal_view by blast
  then show "\<not> shouldscan st2" using h by simp
  show "count_list (trace st2) (WiFiScanNetworks False)
            = count_list (trace st) (WiFiScanNetworks False)" using v by simp
  show "wifiSSIDs st2 = wifiSSIDs st" using v by simp
  show "wifiSSIDCount st2 = wifiSSIDCount st" using v by simp
qed

theorem scan_block_witness:
  "scan_due quiet (portal_start at_start ''ap'' None stale)
   \<and> \<not> batch_wf (portal_start at_start ''ap'' None stale)
   \<and> shouldscan (portal_start at_start ''ap'' None stale)
   \<and> wifiSSIDscan (portal_start at_start ''ap'' None stale)
   \<and> try_scan (portal_start at_start ''ap'' None stale)
   \<and> 0 < scanNetworks_result quiet
   \<and> (\<exists>c1 st1. scan_step quiet (False, portal_start at_start ''ap'' None stale) = Some (c1, st1)
         \<and> scannow st1 = t_scanstamp quiet
         \<and> count_list (trace st1) (WiFiScanNetworks False) = 1
         \<and> wifiSSIDCount st1 = 4
         \<and> \<not> shouldscan st1)
   \<and> scan_due fruitless (portal_start at_start ''ap'' None stale)
   \<and> scan_step fruitless (False, portal_start at_start ''ap'' None stale) = None
   \<and> \<not> shouldscan (snd (first_pass fresh_manager))
   \<and> wifiSSIDs (snd (snd (run_portal no_parse [second_pass, second_pass] (first_pass fresh_manager))))
       = wifiSSIDs (snd (first_pass fresh_manager))
   \<and> count_list
        (trace (snd (snd (run_portal no_parse [second_pass, second_pass] (first_pass fresh_manager)))))
        (WiFiScanNetworks False) = 1"
proof -
  let ?s = "portal_start at_start ''ap'' None stale"
  have h: "scan_due quiet ?s \<and> \<not> batch_wf ?s \<and> shouldscan ?s \<and> wifiSSIDscan ?s \<and> try_scan ?s
           \<and> 0 < scanNetworks_result quiet"
    by code_simp
  have e: "count_list (trace ?s) (WiFiScanNetworks False) = 0
           \<and> wifiSSIDCount (copySSIDInfo quiet (scanNetworks_result quiet) ?s) = 4"
    by code_simp
  have p1: "\<exists>c1 st1. scan_step quiet (False, ?s) = Some (c1, st1)
         \<and> scannow st1 = t_scanstamp quiet
         \<and> count_list (trace st1) (WiFiScanNetworks False) = 1
         \<and> wifiSSIDCount st1 = 4
         \<and> \<not> shouldscan st1"
    using h e scan_block [of quiet ?s False no_parse "[]" Continue False ?s] by auto
  have g: "scan_due fruitless ?s \<and> \<not> batch_wf ?s
           \<and> \<not> (shouldscan ?s \<and> wifiSSIDscan ?s \<and> try_scan ?s \<and> 0 < scanNetworks_result fruitless)"
    by code_simp
  have p2: "scan_step fruitless (False, ?s) = None"
    using g scan_block [of fruitless ?s False no_parse "[]" Continue False ?s] by blast
  let ?a = "first_pass fresh_manager"
  let ?r = "run_portal no_parse [second_pass, second_pass] ?a"
  have n: "\<not> shouldscan (snd ?a) \<and> count_list (trace (snd ?a)) (WiFiScanNetworks False) = 1"
    by code_simp
  have r: "run_portal no_parse [second_pass, second_pass] (fst ?a, snd ?a)
             = (fst ?r, fst (snd ?r), snd (snd ?r))"
    by simp
  have p3: "wifiSSIDs (snd (snd ?r)) = wifiSSIDs (snd ?a)
            \<and> count_list (trace (snd (snd ?r))) (WiFiScanNetworks False) = 1"
    using n r
      scan_block [of quiet "snd ?a" "fst ?a" no_parse "[second_pass, second_pass]"
                     "fst ?r" "fst (snd ?r)" "snd (snd ?r)"]
    by simp
  show ?thesis using h p1 g p2 n p3 by blast
qed

text \<open>
  The claim as it was stated fails on a second elapse of the interval. The first pass of
  a portal scans and stores four networks. Two thousand seconds later the scan is due
  again and one new network is in range; the pass disconnects the station a second time,
  but the trace still holds one call of \<^verbatim>\<open>scanNetworks\<close> and the stored array is the one
  of the first pass.
\<close>

theorem rescan_counterexample:
  "scan_due second_pass (snd (first_pass fresh_manager))
   \<and> fst (run_portal no_parse [second_pass] (first_pass fresh_manager)) = Continue
   \<and> map_option (map SSID) (wifiSSIDs (snd (first_pass fresh_manager)))
        = Some [''home'', ''home'', ''cafe'', ''far'']
   \<and> map_option (map SSID)
        (wifiSSIDs (snd (snd (run_portal no_parse [second_pass] (first_pass fresh_manager)))))
        = Some [''home'', ''home'', ''cafe'', ''far'']
   \<and> count_list (trace (snd (snd (run_portal no_parse [second_pass] (first_pass fresh_manager)))))
        (WiFiScanNetworks False) = 1
   \<and> count_list (trace (snd (snd (run_portal no_parse [second_pass] (first_pass fresh_manager)))))
        (WiFiDisconnect False) = 2"
  by code_simp

subsection \<open>The connect block of the loop\<close>

lemma poll_loop_first:
  "poll_loop start tmo rs = Some s \<Longrightarrow>
   \<exists>pre now post. rs = pre @ (s, now) # post
      \<and> (now > start + tmo \<or> s = WL_CONNECTED \<or> s = WL_CONNECT_FAILED)
      \<and> (\<forall>(s', t') \<in> set pre. \<not> t' > start + tmo \<and> s' \<noteq> WL_CONNECTED \<and> s' \<noteq> WL_CONNECT_FAILED)"
proof (induction rs)
  case Nil
  then show ?case by simp
next
  case (Cons r rs)
  obtain s0 t0 where r: "r = (s0, t0)" by (cases r)
  show ?case
  proof (cases "t0 > start + tmo \<or> s0 = WL_CONNECTED \<or> s0 = WL_CONNECT_FAILED")
    case True
    then have "s = s0" using Cons.prems r by auto
    then have "r # rs = [] @ (s, t0) # rs
      \<and> (t0 > start + tmo \<or> s = WL_CONNECTED \<or> s = WL_CONNECT_FAILED)
      \<and> (\<forall>(s', t') \<in> set []. \<not> t' > start + tmo \<and> s' \<noteq> WL_CONNECTED \<and> s' \<noteq> WL_CONNECT_FAILED)"
      using True r by simp
    then show ?thesis by blast
  next
    case False
    then have "poll_loop start tmo rs = Some s" using Cons.prems r by auto
    then obtain pre now post where p: "rs = pre @ (s, now) # post"
      "now > start + tmo \<or> s = WL_CONNECTED \<or> s = WL_CONNECT_FAILED"
      "\<forall>(s', t') \<in> set pre. \<not> t' > start + tmo \<and> s' \<noteq> WL_CONNECTED \<and> s' \<noteq> WL_CONNECT_FAILED"
      using Cons.IH by blast
    have "r # rs = (r # pre) @ (s, now) # post
      \<and> (now > start + tmo \<or> s = WL_CONNECTED \<or> s = WL_CONNECT_FAILED)
      \<and> (\<forall>(s', t') \<in> set (r # pre). \<not> t' > start + tmo \<and> s' \<noteq> WL_CONNECTED \<and> s' \<noteq> WL_CONNECT_FAILED)"
      using p False r by auto
    then show ?thesis by blast
  qed
qed

text \<open>
  With a connect timeout set, the wait returns the status of the first reading that is
  connected or failed or is taken after the deadline.
\<close>

lemma waitForConnectResult_deadline:
  assumes "connectTimeout st \<noteq> 0" "waitForConnectResult env st = Some r"
  shows "\<exists>pre now post. polls env = pre @ (r, now) # post
           \<and> (now > t_wait_start env + connectTimeout st \<or> r = WL_CONNECTED \<or> r = WL_CONNECT_FAILED)
           \<and> (\<forall>(s', t') \<in> set pre. \<not> t' > t_wait_start env + connectTimeout st
                  \<and> s' \<noteq> WL_CONNECTED \<and> s' \<noteq> WL_CONNECT_FAILED)"
proof -
  have "poll_loop (t_wait_start env) (connectTimeout st) (polls env) = Some r"
    using assms by (simp add: waitForConnectResult_def)
  then show ?thesis by (rule poll_loop_first)
qed

lemma waitForConnectResult_emit [simp]:
  "waitForConnectResult env (emit e st) = waitForConnectResult env st"
  "waitForConnectResult_calls env (emit e st) = waitForConnectResult_calls env st"
  by (simp_all add: waitForConnectResult_def waitForConnectResult_calls_def emit_def)

lemma connectWifi_result:
  "fst (connectWifi env s p st) = waitForConnectResult env st"
  by (simp add: connectWifi_def Let_def split: option.splits)

lemma connectWifi_begin:
  "s \<noteq> [] \<Longrightarrow>
   \<exists>pre post. trace (snd (connectWifi env s p st)) =
                 trace st @ pre @ [WiFiDisconnect False, WiFiBeginWith s p] @ post"
proof -
  assume s: "s \<noteq> []"
  define cfg where "cfg = (if sta_static_ip st \<noteq> 0
      then [WiFiConfig (sta_static_ip st) (sta_static_gw st) (sta_static_sn st)
              (sta_static_dns1 st) (sta_static_dns2 st)] else [])"
  have "trace (snd (connectWifi env s p st)) =
          trace st @ cfg @ [WiFiDisconnect False, WiFiBeginWith s p]
            @ waitForConnectResult_calls env st"
    using s
    by (simp add: connectWifi_def Let_def emit_def setInfo_def cfg_def
          waitForConnectResult_def waitForConnectResult_calls_def split: option.splits)
  then show ?thesis by blast
qed

lemma connectWifi_fields:
  "savecallback (snd (connectWifi env s p st)) = savecallback st"
  "shouldBreakAfterConfig (snd (connectWifi env s p st)) = shouldBreakAfterConfig st"
  "connect (snd (connectWifi env s p st)) = connect st"
  by (simp_all add: connectWifi_def Let_def emit_def setInfo_def split: option.splits)

lemma break_after_config_fields:
  "connect (snd (break_after_config st)) = connect st"
  "fst (break_after_config st) \<noteq> Break SaveConnected"
  "\<exists>post. trace (snd (break_after_config st)) = trace st @ post"
  by (simp_all add: break_after_config_def emit_def)

lemma connect_step_flag:
  assumes "connect st"
  shows "\<not> connect (snd (connect_step env st))"
proof -
  let ?st1 = "emit (WiFiPersistent True) (emit (Delay 2000) (st\<lparr>connect := False\<rparr>))"
  have c1: "\<not> connect ?st1" by (simp add: emit_def)
  show ?thesis
  proof (cases "tryConnectDuringConfigPortal st")
    case False
    then show ?thesis using assms c1
      by (simp add: connect_step_def Let_def emit_def break_after_config_fields)
  next
    case True
    obtain r st2 where cw: "connectWifi env (ssid ?st1) (pass ?st1) ?st1 = (r, st2)"
      by (metis surj_pair)
    have c2: "\<not> connect st2" using connectWifi_fields(3)[of env "ssid ?st1" "pass ?st1" ?st1] cw c1 by simp
    show ?thesis
      using assms cw c2
      by (cases r) (auto simp: connect_step_def Let_def emit_def break_after_config_fields)
  qed
qed

lemma connect_step_attempt:
  assumes "connect st" "tryConnectDuringConfigPortal st"
  shows "ssid st \<noteq> [] \<longrightarrow>
           (\<exists>pre post. trace (snd (connect_step env st)) =
               trace st @ pre @ [WiFiDisconnect False, WiFiBeginWith (ssid st) (pass st)] @ post)"
    and "waitForConnectResult env st = Some WL_CONNECTED \<longrightarrow>
           fst (connect_step env st) = Break SaveConnected
           \<and> (savecallback st \<longrightarrow> last (trace (snd (connect_step env st))) = SaveCallback)"
    and "\<forall>r. waitForConnectResult env st = Some r \<and> r \<noteq> WL_CONNECTED \<longrightarrow>
           fst (connect_step env st) \<noteq> Break SaveConnected"
    and "waitForConnectResult env st = None \<longrightarrow> fst (connect_step env st) = Blocked"
proof -
  let ?st1 = "emit (WiFiPersistent True) (emit (Delay 2000) (st\<lparr>connect := False\<rparr>))"
  have f1: "ssid ?st1 = ssid st" "pass ?st1 = pass st" "tryConnectDuringConfigPortal ?st1"
    "trace ?st1 = trace st @ [Delay 2000, WiFiPersistent True]"
    "waitForConnectResult env ?st1 = waitForConnectResult env st"
    "savecallback ?st1 = savecallback st"
    using assms(2) by (simp_all add: emit_def waitForConnectResult_def)
  obtain r st2 where cw: "connectWifi env (ssid st) (pass st) ?st1 = (r, st2)"
    by (metis surj_pair)
  have r: "r = waitForConnectResult env st"
    using connectWifi_result[of env "ssid st" "pass st" ?st1] cw f1 by simp
  have sc: "savecallback st2 = savecallback st"
    using connectWifi_fields(1)[of env "ssid st" "pass st" ?st1] cw f1 by simp
  have cs: "connect_step env st =
      (case r of None \<Rightarrow> (Blocked, st2)
       | Some connRes \<Rightarrow>
           if connRes = WL_CONNECTED
           then (Break SaveConnected,
                 (let st3 = emit (WiFiPersistent False) st2
                  in if savecallback st3 then emit SaveCallback st3 else st3))
           else break_after_config (st2\<lparr>time_now := t_fail env\<rparr>))"
    using assms cw f1 by (simp add: connect_step_def Let_def)
  show "ssid st \<noteq> [] \<longrightarrow>
           (\<exists>pre post. trace (snd (connect_step env st)) =
               trace st @ pre @ [WiFiDisconnect False, WiFiBeginWith (ssid st) (pass st)] @ post)"
  proof
    assume ne: "ssid st \<noteq> []"
    obtain pre post where t2: "trace st2 =
        trace ?st1 @ pre @ [WiFiDisconnect False, WiFiBeginWith (ssid st) (pass st)] @ post"
      using connectWifi_begin[OF ne, of env "pass st" ?st1] cw by auto
    obtain post2 where t3: "trace (snd (connect_step env st)) = trace st2 @ post2"
    proof (cases r)
      case None
      then have "trace (snd (connect_step env st)) = trace st2 @ []" using cs by simp
      then show ?thesis using that by blast
    next
      case (Some connRes)
      show ?thesis
      proof (cases "connRes = WL_CONNECTED")
        case True
        then have "trace (snd (connect_step env st)) =
                     trace st2 @ (WiFiPersistent False # (if savecallback st2 then [SaveCallback] else []))"
          using cs Some by (simp add: Let_def emit_def)
        then show ?thesis using that by blast
      next
        case False
        obtain p where "trace (snd (break_after_config (st2\<lparr>time_now := t_fail env\<rparr>))) =
                          trace (st2\<lparr>time_now := t_fail env\<rparr>) @ p"
          using break_after_config_fields(3) by blast
        then have "trace (snd (connect_step env st)) = trace st2 @ p"
          using cs Some False by simp
        then show ?thesis using that by blast
      qed
    qed
    have "trace (snd (connect_step env st)) =
            trace st @ ([Delay 2000, WiFiPersistent True] @ pre)
              @ [WiFiDisconnect False, WiFiBeginWith (ssid st) (pass st)] @ (post @ post2)"
      using t2 t3 f1(4) by simp
    then show "\<exists>pre post. trace (snd (connect_step env st)) =
               trace st @ pre @ [WiFiDisconnect False, WiFiBeginWith (ssid st) (pass st)] @ post"
      by blast
  qed
  show "waitForConnectResult env st = Some WL_CONNECTED \<longrightarrow>
           fst (connect_step env st) = Break SaveConnected
           \<and> (savecallback st \<longrightarrow> last (trace (snd (connect_step env st))) = SaveCallback)"
    using cs r sc by (simp add: Let_def emit_def)
  show "\<forall>r. waitForConnectResult env st = Some r \<and> r \<noteq> WL_CONNECTED \<longrightarrow>
           fst (connect_step env st) \<noteq> Break SaveConnected"
    using cs r break_after_config_fields(2) by auto
  show "waitForConnectResult env st = None \<longrightarrow> fst (connect_step env st) = Blocked"
    using cs r by simp
qed

lemma connect_step_gated:
  assumes "connect st" "\<not> tryConnectDuringConfigPortal st"
  shows "trace (snd (connect_step env st)) =
           trace st @ [Delay 2000, WiFiPersistent True]
             @ (if shouldBreakAfterConfig st
                then (if savecallback st then [SaveCallback] else [])
                else [Yield])"
    and "fst (connect_step env st) =
           (if shouldBreakAfterConfig st then Break BreakAfterConfig else Continue)"
  using assms by (simp_all add: connect_step_def Let_def emit_def break_after_config_def)

text \<open>
  Claim C2, as amended. Take a pass in which the loop condition holds, the body reaches
  the test of \<^verbatim>\<open>connect\<close> in state \<open>st1\<close> (the radio does not report connected) and the
  flag is set. The pass clears the flag. When \<^verbatim>\<open>_tryConnectDuringConfigPortal\<close> is on,
  \<^verbatim>\<open>connectWifi(_ssid, _pass)\<close> is called: for a non-empty \<^verbatim>\<open>_ssid\<close> the station is
  disconnected and \<^verbatim>\<open>WiFi.begin\<close> is called with the pending credentials, and the result
  is the one of \<^verbatim>\<open>waitForConnectResult\<close> under \<^verbatim>\<open>_connectTimeout\<close>; when that result is
  connected the loop is left and the save callback, when registered, is the last call
  made; on any other result the loop is not left as connected; while the wait has not
  returned the pass is blocked. When \<^verbatim>\<open>_tryConnectDuringConfigPortal\<close> is off no
  connection is attempted: the pass only waits, switches persistence on and, depending
  on \<^verbatim>\<open>_shouldBreakAfterConfig\<close>, leaves the loop after the save callback or goes on.
\<close>

theorem connect_block:
  assumes "loop_condition (t_loop env) (handle_requests f env st)"
    and "body_head env (c, handle_requests f env st) = Some (c1, st1)"
    and "loop_status env \<noteq> WL_CONNECTED"
    and "connect st1"
  shows "\<exists>out st2. portal_iteration f env (c, st) = (out, c1, st2)
           \<and> \<not> connect st2
           \<and> (tryConnectDuringConfigPortal st1 \<longrightarrow>
                 (ssid st1 \<noteq> [] \<longrightarrow>
                    (\<exists>pre post. trace st2 =
                       trace st1 @ pre @ [WiFiDisconnect False, WiFiBeginWith (ssid st1) (pass st1)]
                         @ post))
                 \<and> (waitForConnectResult env st1 = Some WL_CONNECTED \<longrightarrow>
                      out = Break SaveConnected
                      \<and> (savecallback st1 \<longrightarrow> last (trace st2) = SaveCallback))
                 \<and> (\<forall>r. waitForConnectResult env st1 = Some r \<and> r \<noteq> WL_CONNECTED \<longrightarrow>
                      out \<noteq> Break SaveConnected)
                 \<and> (waitForConnectResult env st1 = None \<longrightarrow> out = Blocked))
           \<and> (\<not> tryConnectDuringConfigPortal st1 \<longrightarrow>
                 trace st2 = trace st1 @ [Delay 2000, WiFiPersistent True]
                               @ (if shouldBreakAfterConfig st1
                                  then (if savecallback st1 then [SaveCallback] else [])
                                  else [Yield])
                 \<and> out = (if shouldBreakAfterConfig st1 then Break BreakAfterConfig else Continue))"
proof -
  obtain out st2 where cs: "connect_step env st1 = (out, st2)" by (metis surj_pair)
  have it: "portal_iteration f env (c, st) = (out, c1, st2)"
    using assms(1,2,3) cs by (simp add: portal_iteration_def Let_def status_step_def)
  have o: "out = fst (connect_step env st1)" and s: "st2 = snd (connect_step env st1)"
    using cs by simp_all
  have flag: "\<not> connect st2" unfolding s using connect_step_flag[OF assms(4)] .
  have att: "tryConnectDuringConfigPortal st1 \<longrightarrow>
                 (ssid st1 \<noteq> [] \<longrightarrow>
                    (\<exists>pre post. trace st2 =
                       trace st1 @ pre @ [WiFiDisconnect False, WiFiBeginWith (ssid st1) (pass st1)]
                         @ post))
                 \<and> (waitForConnectResult env st1 = Some WL_CONNECTED \<longrightarrow>
                      out = Break SaveConnected
                      \<and> (savecallback st1 \<longrightarrow> last (trace st2) = SaveCallback))
                 \<and> (\<forall>r. waitForConnectResult env st1 = Some r \<and> r \<noteq> WL_CONNECTED \<longrightarrow>
                      out \<noteq> Break SaveConnected)
                 \<and> (waitForConnectResult env st1 = None \<longrightarrow> out = Blocked)"
  proof
    assume t: "tryConnectDuringConfigPortal st1"
    show "(ssid st1 \<noteq> [] \<longrightarrow>
                    (\<exists>pre post. trace st2 =
                       trace st1 @ pre @ [WiFiDisconnect False, WiFiBeginWith (ssid st1) (pass st1)]
                         @ post))
                 \<and> (waitForConnectResult env st1 = Some WL_CONNECTED \<longrightarrow>
                      out = Break SaveConnected
                      \<and> (savecallback st1 \<longrightarrow> last (trace st2) = SaveCallback))
                 \<and> (\<forall>r. waitForConnectResult env st1 = Some r \<and> r \<noteq> WL_CONNECTED \<longrightarrow>
                      out \<noteq> Break SaveConnected)
                 \<and> (waitForConnectResult env st1 = None \<longrightarrow> out = Blocked)"
      unfolding o s
      by (intro conjI) (rule connect_step_attempt[OF assms(4) t])+
  qed
  have gat: "\<not> tryConnectDuringConfigPortal st1 \<longrightarrow>
                 trace st2 = trace st1 @ [Delay 2000, WiFiPersistent True]
                               @ (if shouldBreakAfterConfig st1
                                  then (if savecallback st1 then [SaveCallback] else [])
                                  else [Yield])
                 \<and> out = (if shouldBreakAfterConfig st1 then Break BreakAfterConfig else Continue)"
  proof
    assume t: "\<not> tryConnectDuringConfigPortal st1"
    show "trace st2 = trace st1 @ [Delay 2000, WiFiPersistent True]
                               @ (if shouldBreakAfterConfig st1
                                  then (if savecallback st1 then [SaveCallback] else [])
                                  else [Yield])
                 \<and> out = (if shouldBreakAfterConfig st1 then Break BreakAfterConfig else Continue)"
      unfolding o s
      by (intro conjI) (rule connect_step_gated[OF assms(4) t])+
  qed
  show ?thesis
    by (intro exI[of _ out] exI[of _ st2] conjI it flag att gat)
qed

theorem connect_block_witness:
  "\<exists>c1 st1.
     loop_condition (t_loop saving) (handle_requests no_parse saving (snd (first_pass fresh_manager)))
     \<and> body_head saving (fst (first_pass fresh_manager),
                           handle_requests no_parse saving (snd (first_pass fresh_manager)))
         = Some (c1, st1)
     \<and> loop_status saving \<noteq> WL_CONNECTED
     \<and> connect st1
     \<and> (\<exists>st2. portal_iteration no_parse saving
                  (fst (first_pass fresh_manager), snd (first_pass fresh_manager))
                  = (Break SaveConnected, c1, st2)
               \<and> \<not> connect st2
               \<and> last (trace st2) = WiFiPersistent False)"
proof -
  let ?c = "fst (first_pass fresh_manager)"
  let ?st = "snd (first_pass fresh_manager)"
  let ?h = "body_head saving (?c, handle_requests no_parse saving ?st)"
  define c1 where "c1 = fst (the ?h)"
  define st1 where "st1 = snd (the ?h)"
  have h1: "loop_condition (t_loop saving) (handle_requests no_parse saving ?st)" by code_simp
  have "case ?h of None \<Rightarrow> False | Some s \<Rightarrow> True" by code_simp
  then have h2: "?h = Some (c1, st1)" by (auto simp: c1_def st1_def split: option.splits)
  have h3: "loop_status saving \<noteq> WL_CONNECTED" by code_simp
  have h4: "connect st1" unfolding st1_def by code_simp
  have e: "tryConnectDuringConfigPortal st1 \<and> waitForConnectResult saving st1 = Some WL_CONNECTED
           \<and> \<not> savecallback st1"
    unfolding st1_def by code_simp
  obtain out st2 where r: "portal_iteration no_parse saving (?c, ?st) = (out, c1, st2)"
      "\<not> connect st2" "out = Break SaveConnected"
    using connect_block [OF h1 h2 h3 h4] e by blast
  have "last (trace (snd (snd (portal_iteration no_parse saving (?c, ?st))))) = WiFiPersistent False"
    by code_simp
  then have "last (trace st2) = WiFiPersistent False" using r(1) by simp
  then show ?thesis using h1 h2 h3 h4 r by blast
qed

text \<open>
  The claim as it was stated fails when \<^verbatim>\<open>_tryConnectDuringConfigPortal\<close> is off. After
  one quiet pass the save form is submitted with SSID \<open>home\<close>; the handler sets the flag.
  The next pass clears it and goes on, and the calls it makes are the response of the
  handler, the watchdog and DNS calls, the delay, \<^verbatim>\<open>WiFi.persistent(true)\<close> and
  \<^verbatim>\<open>yield()\<close>: no \<^verbatim>\<open>WiFi.begin\<close>.
\<close>

theorem connect_gated_counterexample:
  "connect (handle_requests no_parse saving (snd (first_pass gated)))
   \<and> ssid (handle_requests no_parse saving (snd (first_pass gated))) = ''home''
   \<and> fst (run_portal no_parse [saving] (first_pass gated)) = Continue
   \<and> \<not> connect (snd (snd (run_portal no_parse [saving] (first_pass gated))))
   \<and> drop (length (trace (snd (first_pass gated))))
        (trace (snd (snd (run_portal no_parse [saving] (first_pass gated)))))
       = [HttpSend 200 ''text/html'' [], WdtReset, DnsProcessNextRequest, Delay 2000,
          WiFiPersistent True, Yield]"
  by code_simp

end
